theory Spec2Isabelle
  imports Complex_Main "HOL-Library.Monad_Syntax"
begin

section \<open>Numbers, vectors and indices\<close>

text \<open>
  A value of the C++ type \<^verbatim>\<open>double\<close> is a finite number, one of the two infinities, or
  a NaN. A finite value is read as the real number it denotes, and an arithmetic
  operation on finite values gives the exact real result, put back into the range of
  the type by \<open>to_double\<close>: a result of magnitude at least \<open>2\<^sup>1\<^sup>0\<^sup>2\<^sup>4 - 2\<^sup>9\<^sup>7\<^sup>0\<close> overflows to
  an infinity, and one of magnitude at most \<open>2\<^sup>-\<^sup>1\<^sup>0\<^sup>7\<^sup>5\<close> underflows to zero, as under the
  IEEE rule of rounding to nearest. Between these two bounds the rounding of the
  mantissa is not part of this development: a property stated below of a finite result
  holds of the computed double up to that rounding. The sign of a zero is not
  represented either; a division by zero takes the zero as positive, which is the zero
  that the divisors computed in this file are. Infinities and NaN propagate as IEEE
  arithmetic prescribes.

  Coordinates of points and vectors are real numbers. An operation whose behaviour C++
  leaves undefined (reading a vector out of range, dereferencing a null pointer)
  returns \<open>None\<close>, as does a vector operation that would need a coordinate which is not
  finite.
\<close>

datatype dbl = Fin real | PInf | NInf | NaN

definition dbl_overflow :: real where
  \<comment> \<open>the least magnitude that rounds to an infinity\<close>
  "dbl_overflow = 2 ^ 1024 - 2 ^ 970"

definition dbl_underflow :: real where
  \<comment> \<open>the greatest magnitude that rounds to zero\<close>
  "dbl_underflow = 1 / 2 ^ 1075"

definition dbl_min :: real where
  \<comment> \<open>the least positive value of the type\<close>
  "dbl_min = 1 / 2 ^ 1074"

definition to_double :: "real \<Rightarrow> dbl" where
  "to_double x =
     (if dbl_overflow \<le> x then PInf
      else if x \<le> - dbl_overflow then NInf
      else if \<bar>x\<bar> \<le> dbl_underflow then Fin 0
      else Fin x)"

fun dadd :: "dbl \<Rightarrow> dbl \<Rightarrow> dbl" where
  "dadd (Fin a) (Fin b) = to_double (a + b)"
| "dadd NaN y = NaN"
| "dadd x NaN = NaN"
| "dadd PInf NInf = NaN"
| "dadd NInf PInf = NaN"
| "dadd PInf y = PInf"
| "dadd x PInf = PInf"
| "dadd NInf y = NInf"
| "dadd x NInf = NInf"

fun dneg :: "dbl \<Rightarrow> dbl" where
  "dneg (Fin a) = Fin (- a)"
| "dneg PInf = NInf"
| "dneg NInf = PInf"
| "dneg NaN = NaN"

definition dsub :: "dbl \<Rightarrow> dbl \<Rightarrow> dbl" where
  "dsub a b = dadd a (dneg b)"

fun dmul :: "dbl \<Rightarrow> dbl \<Rightarrow> dbl" where
  "dmul (Fin a) (Fin b) = to_double (a * b)"
| "dmul NaN y = NaN"
| "dmul x NaN = NaN"
| "dmul (Fin a) PInf = (if a = 0 then NaN else if 0 < a then PInf else NInf)"
| "dmul (Fin a) NInf = (if a = 0 then NaN else if 0 < a then NInf else PInf)"
| "dmul PInf (Fin b) = (if b = 0 then NaN else if 0 < b then PInf else NInf)"
| "dmul NInf (Fin b) = (if b = 0 then NaN else if 0 < b then NInf else PInf)"
| "dmul PInf PInf = PInf"
| "dmul PInf NInf = NInf"
| "dmul NInf PInf = NInf"
| "dmul NInf NInf = PInf"

fun ddiv :: "dbl \<Rightarrow> dbl \<Rightarrow> dbl" where
  "ddiv (Fin a) (Fin b) =
     (if b = 0 then (if a = 0 then NaN else if 0 < a then PInf else NInf)
      else to_double (a / b))"
| "ddiv NaN y = NaN"
| "ddiv x NaN = NaN"
| "ddiv (Fin a) PInf = Fin 0"
| "ddiv (Fin a) NInf = Fin 0"
| "ddiv PInf (Fin b) = (if 0 \<le> b then PInf else NInf)"
| "ddiv NInf (Fin b) = (if 0 \<le> b then NInf else PInf)"
| "ddiv PInf PInf = NaN"
| "ddiv PInf NInf = NaN"
| "ddiv NInf PInf = NaN"
| "ddiv NInf NInf = NaN"

fun dless :: "dbl \<Rightarrow> dbl \<Rightarrow> bool" where
  \<comment> \<open>the operator \<^verbatim>\<open><\<close>: false as soon as one side is a NaN\<close>
  "dless (Fin a) (Fin b) = (a < b)"
| "dless NaN y = False"
| "dless x NaN = False"
| "dless NInf NInf = False"
| "dless NInf y = True"
| "dless x NInf = False"
| "dless PInf y = False"
| "dless x PInf = True"

definition dmax :: "dbl \<Rightarrow> dbl \<Rightarrow> dbl" where
  \<comment> \<open>\<^verbatim>\<open>std::max(a, b)\<close>, which is \<^verbatim>\<open>(a < b) ? b : a\<close>\<close>
  "dmax a b = (if dless a b then b else a)"

definition dmin :: "dbl \<Rightarrow> dbl \<Rightarrow> dbl" where
  \<comment> \<open>\<^verbatim>\<open>std::min(a, b)\<close>, which is \<^verbatim>\<open>(b < a) ? b : a\<close>\<close>
  "dmin a b = (if dless b a then b else a)"

fun pow :: "dbl \<Rightarrow> int \<Rightarrow> dbl" where
  \<comment> \<open>\<^verbatim>\<open>std::pow(x, e)\<close> with an integer exponent; the source calls it with \<open>e = -2\<close> only\<close>
  "pow (Fin x) e = (if x = 0 \<and> e < 0 then PInf else to_double (x powi e))"
| "pow PInf e = (if e < 0 then Fin 0 else if e = 0 then Fin 1 else PInf)"
| "pow NInf e =
     (if e < 0 then Fin 0 else if e = 0 then Fin 1 else if even e then PInf else NInf)"
| "pow NaN e = (if e = 0 then Fin 1 else NaN)"

fun finite_value :: "dbl \<Rightarrow> real option" where
  "finite_value (Fin x) = Some x"
| "finite_value PInf = None"
| "finite_value NInf = None"
| "finite_value NaN = None"


text \<open>\<^verbatim>\<open>Point3D\<close> and \<^verbatim>\<open>Vector3D\<close>: three coordinates, with the usual operators.\<close>

type_synonym vec3 = "real \<times> real \<times> real"

fun vadd :: "vec3 \<Rightarrow> vec3 \<Rightarrow> vec3" where
  "vadd (a1, a2, a3) (b1, b2, b3) = (a1 + b1, a2 + b2, a3 + b3)"

fun vsub :: "vec3 \<Rightarrow> vec3 \<Rightarrow> vec3" where
  "vsub (a1, a2, a3) (b1, b2, b3) = (a1 - b1, a2 - b2, a3 - b3)"

fun vneg :: "vec3 \<Rightarrow> vec3" where
  "vneg (a1, a2, a3) = (- a1, - a2, - a3)"

fun vmul :: "vec3 \<Rightarrow> real \<Rightarrow> vec3" where
  "vmul (a1, a2, a3) x = (a1 * x, a2 * x, a3 * x)"

fun vdiv :: "vec3 \<Rightarrow> real \<Rightarrow> vec3 option" where
  "vdiv (a1, a2, a3) x = (if x = 0 then None else Some (a1 / x, a2 / x, a3 / x))"

fun norm3 :: "vec3 \<Rightarrow> real" where
  "norm3 (a1, a2, a3) = sqrt (a1 * a1 + a2 * a2 + a3 * a3)"

text \<open>
  Modelled from the spec: \<^verbatim>\<open>next(i) = (i+1)%N\<close>, the index helper \<^verbatim>\<open>next\<close> of the class
  declaration (\<open>next\<close> is a keyword here, hence the name). With \<open>N = 0\<close> the C++
  remainder is undefined; every caller below either runs inside a loop over \<open>i < N\<close> or
  checks \<open>N\<close> first.
\<close>

definition next_idx :: "nat \<Rightarrow> nat \<Rightarrow> nat" where
  "next_idx n i = (i + 1) mod n"

text \<open>
  Modelled from the spec: \<^verbatim>\<open>prev(i) = (i+N-1)%N\<close>, the index helper \<^verbatim>\<open>prev\<close> of the class
  declaration.
\<close>

definition prev_idx :: "nat \<Rightarrow> nat \<Rightarrow> nat" where
  "prev_idx n i = (i + n - 1) mod n"

text \<open>A loop that runs a fallible body for each index in turn and stops at the first failure.\<close>

fun for_each :: "('s \<Rightarrow> nat \<Rightarrow> 's option) \<Rightarrow> nat list \<Rightarrow> 's \<Rightarrow> 's option" where
  "for_each f [] s = Some s"
| "for_each f (i # js) s = (case f s i of None \<Rightarrow> None | Some s' \<Rightarrow> for_each f js s')"

text \<open>A loop that appends one fallible value per element (\<^verbatim>\<open>push_back\<close>, \<^verbatim>\<open>std::transform\<close>).\<close>

fun collect :: "('a \<Rightarrow> 'b option) \<Rightarrow> 'a list \<Rightarrow> 'b list option" where
  "collect f [] = Some []"
| "collect f (x # xs) =
     (case f x of None \<Rightarrow> None
      | Some y \<Rightarrow> (case collect f xs of None \<Rightarrow> None | Some ys \<Rightarrow> Some (y # ys)))"

text \<open>\<^verbatim>\<open>std::vector::resize(k)\<close>: cut to \<open>k\<close> elements, or pad with default elements.\<close>

definition resize :: "'a list \<Rightarrow> nat \<Rightarrow> 'a \<Rightarrow> 'a list" where
  "resize xs k d = take k xs @ replicate (k - length xs) d"

section \<open>Data model\<close>

text \<open>
  Modelled from the spec: the struct \<^verbatim>\<open>CornerData\<close> of the class declaration, with the
  five fields that the translation unit reads and writes.
\<close>

record corner_data =
  point :: vec3
  tangent1 :: vec3
  tangent2 :: vec3
  twist1 :: vec3
  twist2 :: vec3

text \<open>
  Modelled from the spec: the class \<^verbatim>\<open>Ribbon\<close>, which is defined in another translation
  unit. A ribbon refers to one curve (a shared pointer, here an address into the store of
  curves, \<open>None\<close> for the null pointer) and to its previous and next ribbon; \<open>r_data\<close> is
  whatever else the concrete ribbon class keeps. A neighbour is recorded as the slot of
  the ribbon sequence it was taken from, \<open>None\<close> when that slot held a null pointer.
\<close>

record 'x ribbon =
  r_curve :: "nat option"
  r_prev :: "nat option"
  r_next :: "nat option"
  r_data :: 'x

text \<open>
  Modelled from the spec: \<^verbatim>\<open>Ribbon::setCurve\<close>, which stores the pointer that
  \<^verbatim>\<open>Ribbon::curve\<close> returns (the field \<open>r_curve\<close>).
\<close>

definition setCurve_r :: "'x ribbon \<Rightarrow> nat option \<Rightarrow> 'x ribbon" where
  "setCurve_r r c = r\<lparr>r_curve := c\<rparr>"

text \<open>
  Modelled from the spec: \<^verbatim>\<open>Ribbon::setNeighbors\<close>, which stores the references to the
  previous and the next ribbon.
\<close>

definition setNeighbors :: "'x ribbon \<Rightarrow> nat option \<Rightarrow> nat option \<Rightarrow> 'x ribbon" where
  "setNeighbors r p q = r\<lparr>r_prev := p, r_next := q\<rparr>"

text \<open>
  Modelled from the spec: the members of \<^verbatim>\<open>Surface\<close> as the class declaration has them
  (\<^verbatim>\<open>n_\<close>, \<^verbatim>\<open>use_gamma_\<close>, \<^verbatim>\<open>ribbons_\<close>, \<^verbatim>\<open>corner_data_\<close>, \<^verbatim>\<open>domain_\<close>, \<^verbatim>\<open>param_\<close>; a name
  cannot end in an underscore here, so they carry the prefix \<open>m_\<close> instead), together
  with the store of curve objects that the shared pointers of the ribbons point into.
  Two ribbons may hold the same address.
\<close>

record ('c, 'x, 'd, 'p) surface =
  m_n :: nat
  m_use_gamma :: bool
  m_ribbons :: "'x ribbon option list"
  m_corner_data :: "corner_data list"
  m_domain :: 'd
  m_param :: 'p
  curves :: "nat \<Rightarrow> 'c option"

text \<open>\<^verbatim>\<open>TriMesh\<close>, as far as \<^verbatim>\<open>TriMeshImpl\<close> shows it: points and triangles.\<close>

record trimesh =
  tm_points :: "vec3 list"
  tm_triangles :: "(nat \<times> nat \<times> nat) list"

definition setPoints :: "trimesh \<Rightarrow> vec3 list \<Rightarrow> trimesh" where
  "setPoints m pv = m\<lparr>tm_points := pv\<rparr>"

text \<open>
  What the translation unit takes from elsewhere, as parameters: the constant
  \<^verbatim>\<open>epsilon\<close>, the curve class (evaluation, evaluation with derivatives, \<^verbatim>\<open>normalize\<close>,
  \<^verbatim>\<open>reverse\<close>), the virtual members of the ribbon (\<^verbatim>\<open>update\<close>, \<^verbatim>\<open>eval\<close>) and of the
  surface (\<^verbatim>\<open>newRibbon\<close>, \<^verbatim>\<open>eval(Point2D)\<close>), the domain and the parameterization, and the
  value of a default-constructed \<^verbatim>\<open>CornerData\<close>.
\<close>

record ('c, 'x, 'd, 'p) ext =
  epsilon :: real
  c_eval :: "'c \<Rightarrow> real \<Rightarrow> vec3"
  c_eval_der :: "'c \<Rightarrow> real \<Rightarrow> nat \<Rightarrow> vec3 list"
  c_normalize :: "'c \<Rightarrow> 'c"
  c_reverse :: "'c \<Rightarrow> 'c"
  newRibbon :: "'x ribbon"
  r_update :: "(nat \<Rightarrow> 'c option) \<Rightarrow> 'x ribbon option list \<Rightarrow> 'x ribbon \<Rightarrow> 'x ribbon"
  r_eval :: "(nat \<Rightarrow> 'c option) \<Rightarrow> 'x ribbon \<Rightarrow> real \<times> real \<Rightarrow> vec3"
  d_setSide :: "'d \<Rightarrow> nat \<Rightarrow> nat option \<Rightarrow> 'd"
  d_setSides :: "'d \<Rightarrow> nat option list \<Rightarrow> 'd"
  d_update :: "(nat \<Rightarrow> 'c option) \<Rightarrow> 'd \<Rightarrow> bool \<times> 'd"
  d_meshTopology :: "'d \<Rightarrow> nat \<Rightarrow> trimesh"
  d_parameters :: "'d \<Rightarrow> nat \<Rightarrow> (real \<times> real) list"
  p_update :: "'d \<Rightarrow> 'p \<Rightarrow> 'p"
  eval_uv :: "('c, 'x, 'd, 'p) surface \<Rightarrow> real \<times> real \<Rightarrow> vec3"
  default_corner :: corner_data

section \<open>Reading the ribbon sequence\<close>

definition slot :: "('c, 'x, 'd, 'p) surface \<Rightarrow> nat \<Rightarrow> 'x ribbon option option" where
  \<comment> \<open>\<^verbatim>\<open>ribbons_[i]\<close>: the pointer in slot \<open>i\<close>; no value out of range\<close>
  "slot S i = (if i < length (m_ribbons S) then Some (m_ribbons S ! i) else None)"

definition handle :: "('c, 'x, 'd, 'p) surface \<Rightarrow> nat \<Rightarrow> nat option option" where
  \<comment> \<open>the pointer in slot \<open>i\<close>, as a neighbour reference\<close>
  "handle S i = map_option (map_option (\<lambda>r. i)) (slot S i)"

definition ribbon_at :: "('c, 'x, 'd, 'p) surface \<Rightarrow> nat \<Rightarrow> 'x ribbon option" where
  \<comment> \<open>\<^verbatim>\<open>*ribbons_[i]\<close>\<close>
  "ribbon_at S i = (case slot S i of None \<Rightarrow> None | Some p \<Rightarrow> p)"

definition curve_of :: "('c, 'x, 'd, 'p) surface \<Rightarrow> 'x ribbon \<Rightarrow> 'c option" where
  \<comment> \<open>\<^verbatim>\<open>*r.curve()\<close>\<close>
  "curve_of S r = (case r_curve r of None \<Rightarrow> None | Some a \<Rightarrow> curves S a)"

definition curve_at :: "('c, 'x, 'd, 'p) surface \<Rightarrow> nat \<Rightarrow> 'c option" where
  \<comment> \<open>\<^verbatim>\<open>*ribbons_[i]->curve()\<close>\<close>
  "curve_at S i = (case ribbon_at S i of None \<Rightarrow> None | Some r \<Rightarrow> curve_of S r)"

section \<open>Construction and the setters\<close>

text \<open>
  Sizes and indices are \<^verbatim>\<open>size_t\<close>, taken to be 64 bits wide and read as natural numbers.
  The one sum that can leave the range is \<open>i + 1\<close> in \<open>setCurve\<close>, for the largest index:
  it wraps to 0, the sequence is resized to nothing and the write to slot \<open>i\<close> is out of
  range. The sums in \<open>next\<close> and \<open>prev\<close> are taken at indices below the size of a
  sequence. Memory is not bounded in this development.
\<close>

definition size_range :: nat where
  "size_range = 2 ^ 64"

definition Surface :: "'d \<Rightarrow> 'p \<Rightarrow> (nat \<Rightarrow> 'c option) \<Rightarrow> ('c, 'x, 'd, 'p) surface" where
  "Surface d0 p0 h =
     \<lparr>m_n = 0, m_use_gamma = True, m_ribbons = [], m_corner_data = [],
      m_domain = d0, m_param = p0, curves = h\<rparr>"

definition setGamma :: "('c, 'x, 'd, 'p) surface \<Rightarrow> bool \<Rightarrow> ('c, 'x, 'd, 'p) surface" where
  "setGamma S use_gamma = S\<lparr>m_use_gamma := use_gamma\<rparr>"

definition setCurve ::
  "('c, 'x, 'd, 'p) ext \<Rightarrow> ('c, 'x, 'd, 'p) surface \<Rightarrow> nat \<Rightarrow> nat option
     \<Rightarrow> ('c, 'x, 'd, 'p) surface option" where
  "setCurve X S i curve =
     (let S1 = (if m_n S \<le> i
                then S\<lparr>m_ribbons := resize (m_ribbons S) ((i + 1) mod size_range) None,
                       m_n := (i + 1) mod size_range\<rparr>
                else S)
      in if i < length (m_ribbons S1)
         then Some (S1\<lparr>m_ribbons := (m_ribbons S1)[i := Some (setCurve_r (newRibbon X) curve)],
                       m_domain := d_setSide X (m_domain S1) i curve\<rparr>)
         else None)"

definition setCurves ::
  "('c, 'x, 'd, 'p) ext \<Rightarrow> ('c, 'x, 'd, 'p) surface \<Rightarrow> nat option list
     \<Rightarrow> ('c, 'x, 'd, 'p) surface" where
  "setCurves X S cs =
     S\<lparr>m_ribbons := map (\<lambda>c. Some (setCurve_r (newRibbon X) c)) cs,
       m_domain := d_setSides X (m_domain S) cs,
       m_n := length cs\<rparr>"

section \<open>Gamma, twist and the interpolants\<close>

definition gamma :: "('c, 'x, 'd, 'p) surface \<Rightarrow> dbl \<Rightarrow> dbl" where
  "gamma S d = (if m_use_gamma S then ddiv d (dadd (dmul (Fin 2) d) (Fin 1)) else d)"

definition rationalTwist ::
  "('c, 'x, 'd, 'p) ext \<Rightarrow> real \<Rightarrow> real \<Rightarrow> vec3 \<Rightarrow> vec3 \<Rightarrow> vec3 option" where
  "rationalTwist X u v f g =
     (if \<bar>u + v\<bar> < epsilon X then Some (0, 0, 0)
      else vdiv (vadd (vmul f u) (vmul g v)) (u + v))"

definition corner_at :: "('c, 'x, 'd, 'p) surface \<Rightarrow> nat \<Rightarrow> corner_data option" where
  \<comment> \<open>\<^verbatim>\<open>corner_data_[i]\<close>\<close>
  "corner_at S i = (if i < length (m_corner_data S) then Some (m_corner_data S ! i) else None)"

definition cornerCorrection ::
  "('c, 'x, 'd, 'p) ext \<Rightarrow> ('c, 'x, 'd, 'p) surface \<Rightarrow> nat \<Rightarrow> dbl \<Rightarrow> dbl \<Rightarrow> vec3 option" where
  "cornerCorrection X S i si0 si10 =
     (let si = dmin (dmax si0 (Fin 0)) (Fin 1); si1 = dmin (dmax si10 (Fin 0)) (Fin 1) in
      do {
        cd \<leftarrow> corner_at S i;
        g \<leftarrow> finite_value (gamma S si);
        g1 \<leftarrow> finite_value (gamma S si1);
        u \<leftarrow> finite_value si;
        v \<leftarrow> finite_value si1;
        tw \<leftarrow> rationalTwist X u v (twist1 cd) (twist2 cd);
        Some (vadd (vadd (vadd (point cd) (vmul (tangent1 cd) g)) (vmul (tangent2 cd) g1))
                (vmul (vmul tw g) g1))
      })"

definition sideInterpolant ::
  "('c, 'x, 'd, 'p) ext \<Rightarrow> ('c, 'x, 'd, 'p) surface \<Rightarrow> nat \<Rightarrow> dbl \<Rightarrow> dbl \<Rightarrow> vec3 option" where
  "sideInterpolant X S i si0 di0 =
     (let si = dmin (dmax si0 (Fin 0)) (Fin 1); di = dmax (gamma S di0) (Fin 0) in
      do {
        r \<leftarrow> ribbon_at S i;
        s \<leftarrow> finite_value si;
        d \<leftarrow> finite_value di;
        Some (r_eval X (curves S) r (s, d))
      })"

section \<open>Blend functions\<close>

definition close_to_boundary :: "('c, 'x, 'd, 'p) ext \<Rightarrow> (dbl \<times> dbl) list \<Rightarrow> nat" where
  "close_to_boundary X sds = length (filter (\<lambda>sd. dless (snd sd) (Fin (epsilon X))) sds)"

definition d_at :: "(dbl \<times> dbl) list \<Rightarrow> nat \<Rightarrow> dbl option" where
  \<comment> \<open>\<^verbatim>\<open>sds[i][1]\<close>\<close>
  "d_at sds i = (if i < length sds then Some (snd (sds ! i)) else None)"

definition blendCorner_boundary ::
  "('c, 'x, 'd, 'p) ext \<Rightarrow> ('c, 'x, 'd, 'p) surface \<Rightarrow> (dbl \<times> dbl) list \<Rightarrow> nat \<Rightarrow> nat
     \<Rightarrow> dbl option" where
  \<comment> \<open>the value pushed for corner \<open>i\<close> when some side is close to the boundary\<close>
  "blendCorner_boundary X S sds close i =
     (let ip = next_idx (m_n S) i in
      if close > 1 then
        do {
          di \<leftarrow> d_at sds i;
          if dless di (Fin (epsilon X))
          then do {
                 dip \<leftarrow> d_at sds ip;
                 Some (if dless dip (Fin (epsilon X)) then Fin 1 else Fin 0)
               }
          else Some (Fin 0)
        }
      else
        do {
          di \<leftarrow> d_at sds i;
          if dless di (Fin (epsilon X)) then
            do {
              dip \<leftarrow> d_at sds ip;
              let tmp = pow dip (- 2);
              dpr \<leftarrow> d_at sds (prev_idx (m_n S) i);
              Some (ddiv tmp (dadd tmp (pow dpr (- 2))))
            }
          else
            do {
              dip \<leftarrow> d_at sds ip;
              if dless dip (Fin (epsilon X)) then
                do {
                  let tmp = pow di (- 2);
                  dnx \<leftarrow> d_at sds (next_idx (m_n S) ip);
                  Some (ddiv tmp (dadd tmp (pow dnx (- 2))))
                }
              else Some (Fin 0)
            }
        })"

definition blendCorner_interior ::
  "('c, 'x, 'd, 'p) surface \<Rightarrow> (dbl \<times> dbl) list \<Rightarrow> nat \<Rightarrow> dbl option" where
  \<comment> \<open>the value pushed for corner \<open>i\<close> when no side is close to the boundary\<close>
  "blendCorner_interior S sds i =
     do {
       di \<leftarrow> d_at sds i;
       dnx \<leftarrow> d_at sds (next_idx (m_n S) i);
       Some (pow (dmul di dnx) (- 2))
     }"

definition blendCorner ::
  "('c, 'x, 'd, 'p) ext \<Rightarrow> ('c, 'x, 'd, 'p) surface \<Rightarrow> (dbl \<times> dbl) list
     \<Rightarrow> dbl list option" where
  "blendCorner X S sds =
     (let close = close_to_boundary X sds in
      if close > 0 then collect (blendCorner_boundary X S sds close) [0..<m_n S]
      else
        do {
          blf \<leftarrow> collect (blendCorner_interior S sds) [0..<m_n S];
          let denominator = foldl dadd (Fin 0) blf;
          Some (map (\<lambda>x. ddiv x denominator) blf)
        })"

definition blendSideSingular ::
  "('c, 'x, 'd, 'p) ext \<Rightarrow> ('c, 'x, 'd, 'p) surface \<Rightarrow> (dbl \<times> dbl) list \<Rightarrow> dbl list" where
  \<comment> \<open>the loops run over \<open>sds\<close> itself, so nothing is read out of range\<close>
  "blendSideSingular X S sds =
     (let close = close_to_boundary X sds in
      if close > 0 then
        (let blend_val = ddiv (Fin 1) (Fin (real close))
         in map (\<lambda>sd. if dless (snd sd) (Fin (epsilon X)) then blend_val else Fin 0) sds)
      else
        (let blf = map (\<lambda>sd. pow (snd sd) (- 2)) sds;
             denominator = foldl dadd (Fin 0) blf
         in map (\<lambda>x. ddiv x denominator) blf))"

definition blendHermite :: "dbl \<Rightarrow> dbl" where
  "blendHermite x =
     (let x2 = dmul x x
      in dadd (dsub (dmul (dmul (Fin 2) x) x2) (dmul (Fin 3) x2)) (Fin 1))"

section \<open>Orientation and adjacency: \<^verbatim>\<open>setupLoop\<close>\<close>

definition normalize_curve ::
  "('c, 'x, 'd, 'p) ext \<Rightarrow> ('c, 'x, 'd, 'p) surface \<Rightarrow> nat \<Rightarrow> ('c, 'x, 'd, 'p) surface option" where
  \<comment> \<open>\<^verbatim>\<open>ribbons_[i]->curve()->normalize()\<close>\<close>
  "normalize_curve X S i =
     do {
       r \<leftarrow> ribbon_at S i;
       a \<leftarrow> r_curve r;
       c \<leftarrow> curves S a;
       Some (S\<lparr>curves := (curves S)(a \<mapsto> c_normalize X c)\<rparr>)
     }"

definition reverse_curve ::
  "('c, 'x, 'd, 'p) ext \<Rightarrow> ('c, 'x, 'd, 'p) surface \<Rightarrow> nat \<Rightarrow> ('c, 'x, 'd, 'p) surface option" where
  \<comment> \<open>\<^verbatim>\<open>ribbons_[i]->curve()->reverse(); ribbons_[i]->curve()->normalize()\<close>\<close>
  "reverse_curve X S i =
     do {
       r \<leftarrow> ribbon_at S i;
       a \<leftarrow> r_curve r;
       c \<leftarrow> curves S a;
       Some (S\<lparr>curves := (curves S)(a \<mapsto> c_normalize X (c_reverse X c))\<rparr>)
     }"

definition reverse_first :: "('c, 'x, 'd, 'p) ext \<Rightarrow> 'c \<Rightarrow> 'c \<Rightarrow> bool" where
  \<comment> \<open>the test of the branch \<open>i = 0\<close>, on this curve and the next one\<close>
  "reverse_first X c cn =
     (let r_start = c_eval X c 0; r_end = c_eval X c 1;
          rn_start = c_eval X cn 0; rn_end = c_eval X cn 1;
          end_to_start = norm3 (vsub r_end rn_start);
          end_to_end = norm3 (vsub r_end rn_end);
          start_to_start = norm3 (vsub r_start rn_start);
          start_to_end = norm3 (vsub r_start rn_end)
      in min start_to_start start_to_end < min end_to_start end_to_end)"

definition reverse_later :: "('c, 'x, 'd, 'p) ext \<Rightarrow> 'c \<Rightarrow> 'c \<Rightarrow> bool" where
  \<comment> \<open>the test of the branch \<open>i > 0\<close>, on this curve and the previous one\<close>
  "reverse_later X c cp =
     (let r_start = c_eval X c 0; r_end = c_eval X c 1; rp_end = c_eval X cp 1
      in norm3 (vsub r_end rp_end) < norm3 (vsub r_start rp_end))"

text \<open>
  One round of the second loop. The state carries, besides the surface, the list of the
  indices \<open>i\<close> at which \<^verbatim>\<open>reverse()\<close> has been called so far, in the order of the calls.
\<close>

definition setupLoop_step ::
  "('c, 'x, 'd, 'p) ext \<Rightarrow> ('c, 'x, 'd, 'p) surface \<times> nat list \<Rightarrow> nat
     \<Rightarrow> (('c, 'x, 'd, 'p) surface \<times> nat list) option" where
  "setupLoop_step X st i =
     (let S = fst st; revs = snd st in
      do {
        rp \<leftarrow> handle S (prev_idx (m_n S) i);
        rn \<leftarrow> handle S (next_idx (m_n S) i);
        r \<leftarrow> ribbon_at S i;
        let S1 = S\<lparr>m_ribbons := (m_ribbons S)[i := Some (setNeighbors r rp rn)]\<rparr>;
        if i = 0 then
          do {
            c \<leftarrow> curve_at S1 i;
            cn \<leftarrow> curve_at S1 (next_idx (m_n S) i);
            if reverse_first X c cn
            then do { S2 \<leftarrow> reverse_curve X S1 i; Some (S2, revs @ [i]) }
            else Some (S1, revs)
          }
        else
          do {
            c \<leftarrow> curve_at S1 i;
            cp \<leftarrow> curve_at S1 (prev_idx (m_n S) i);
            if reverse_later X c cp
            then do { S2 \<leftarrow> reverse_curve X S1 i; Some (S2, revs @ [i]) }
            else Some (S1, revs)
          }
      })"

definition normalize_all ::
  "('c, 'x, 'd, 'p) ext \<Rightarrow> ('c, 'x, 'd, 'p) surface \<Rightarrow> ('c, 'x, 'd, 'p) surface option" where
  \<comment> \<open>the first loop of \<^verbatim>\<open>setupLoop\<close>\<close>
  "normalize_all X S = for_each (normalize_curve X) [0..<m_n S] S"

definition setupLoop_upto ::
  "('c, 'x, 'd, 'p) ext \<Rightarrow> ('c, 'x, 'd, 'p) surface \<Rightarrow> nat
     \<Rightarrow> (('c, 'x, 'd, 'p) surface \<times> nat list) option" where
  \<comment> \<open>\<^verbatim>\<open>setupLoop\<close> stopped when the second loop reaches index \<open>k\<close>\<close>
  "setupLoop_upto X S k =
     do {
       S1 \<leftarrow> normalize_all X S;
       for_each (setupLoop_step X) [0..<k] (S1, [])
     }"

definition setupLoop ::
  "('c, 'x, 'd, 'p) ext \<Rightarrow> ('c, 'x, 'd, 'p) surface
     \<Rightarrow> (('c, 'x, 'd, 'p) surface \<times> nat list) option" where
  "setupLoop X S =
     do {
       S1 \<leftarrow> normalize_all X S;
       for_each (setupLoop_step X) [0..<m_n S] (S1, [])
     }"

section \<open>Corner data and \<^verbatim>\<open>update\<close>\<close>

definition step :: real where
  "step = 1 / 10000"

definition der_at :: "vec3 list \<Rightarrow> nat \<Rightarrow> vec3 option" where
  \<comment> \<open>\<^verbatim>\<open>der[k]\<close>\<close>
  "der_at der k = (if k < length der then Some (der ! k) else None)"

definition updateCorner ::
  "('c, 'x, 'd, 'p) ext \<Rightarrow> ('c, 'x, 'd, 'p) surface \<Rightarrow> nat \<Rightarrow> ('c, 'x, 'd, 'p) surface option" where
  "updateCorner X S i =
     (if m_n S = 0 then None
      else
        (let ip = next_idx (m_n S) i in
         do {
           r \<leftarrow> ribbon_at S i;
           c \<leftarrow> curve_of S r;
           let der = c_eval_der X c 1 1;
           cd0 \<leftarrow> corner_at S i;
           p \<leftarrow> der_at der 0;
           let cd1 = cd0\<lparr>point := p\<rparr>;
           t1 \<leftarrow> der_at der 1;
           let cd2 = cd1\<lparr>tangent1 := vneg t1\<rparr>;
           rn \<leftarrow> ribbon_at S ip;
           cn \<leftarrow> curve_of S rn;
           let der = c_eval_der X cn 0 1;
           t2 \<leftarrow> der_at der 1;
           let cd3 = cd2\<lparr>tangent2 := t2\<rparr>;
           let d1 = r_eval X (curves S) r (1, 1);
           let d2 = r_eval X (curves S) r (1 - step, 1);
           tw \<leftarrow> vdiv (vsub d2 d1) step;
           let cd4 = cd3\<lparr>twist1 := tw\<rparr>;
           let d1 = r_eval X (curves S) rn (0, 1);
           let d2 = r_eval X (curves S) rn (step, 1);
           tw \<leftarrow> vdiv (vsub d2 d1) step;
           let cd5 = cd4\<lparr>twist1 := tw\<rparr>;
           Some (S\<lparr>m_corner_data := (m_corner_data S)[i := cd5]\<rparr>)
         }))"

definition updateCorners ::
  "('c, 'x, 'd, 'p) ext \<Rightarrow> ('c, 'x, 'd, 'p) surface \<Rightarrow> ('c, 'x, 'd, 'p) surface option" where
  "updateCorners X S =
     for_each (updateCorner X) [0..<m_n S]
       (S\<lparr>m_corner_data := resize (m_corner_data S) (m_n S) (default_corner X)\<rparr>)"

definition update_domain ::
  "('c, 'x, 'd, 'p) ext \<Rightarrow> ('c, 'x, 'd, 'p) surface \<Rightarrow> ('c, 'x, 'd, 'p) surface" where
  \<comment> \<open>\<^verbatim>\<open>if (domain_->update()) param_->update()\<close>\<close>
  "update_domain X S =
     (case d_update X (curves S) (m_domain S) of
        (changed, d') \<Rightarrow>
          S\<lparr>m_domain := d',
            m_param := (if changed then p_update X d' (m_param S) else m_param S)\<rparr>)"

definition update_ribbon ::
  "('c, 'x, 'd, 'p) ext \<Rightarrow> ('c, 'x, 'd, 'p) surface \<Rightarrow> nat \<Rightarrow> ('c, 'x, 'd, 'p) surface option" where
  \<comment> \<open>\<^verbatim>\<open>ribbons_[i]->update()\<close>\<close>
  "update_ribbon X S i =
     do {
       r \<leftarrow> ribbon_at S i;
       Some (S\<lparr>m_ribbons := (m_ribbons S)[i := Some (r_update X (curves S) (m_ribbons S) r)]\<rparr>)
     }"

definition update_i ::
  "('c, 'x, 'd, 'p) ext \<Rightarrow> ('c, 'x, 'd, 'p) surface \<Rightarrow> nat \<Rightarrow> ('c, 'x, 'd, 'p) surface option" where
  \<comment> \<open>\<^verbatim>\<open>Surface::update(size_t i)\<close>\<close>
  "update_i X S i =
     do {
       S1 \<leftarrow> update_ribbon X (update_domain X S) i;
       S2 \<leftarrow> updateCorner X S1 (prev_idx (m_n S1) i);
       updateCorner X S2 i
     }"

definition update ::
  "('c, 'x, 'd, 'p) ext \<Rightarrow> ('c, 'x, 'd, 'p) surface \<Rightarrow> ('c, 'x, 'd, 'p) surface option" where
  \<comment> \<open>\<^verbatim>\<open>Surface::update()\<close>\<close>
  "update X S =
     do {
       S1 \<leftarrow> for_each (update_ribbon X) [0..<length (m_ribbons S)] (update_domain X S);
       updateCorners X S1
     }"

section \<open>Mesh generation\<close>

definition eval ::
  "('c, 'x, 'd, 'p) ext \<Rightarrow> ('c, 'x, 'd, 'p) surface \<Rightarrow> nat \<Rightarrow> trimesh" where
  \<comment> \<open>\<^verbatim>\<open>Surface::eval(size_t resolution) const\<close>\<close>
  "eval X S resolution =
     (let mesh = d_meshTopology X (m_domain S) resolution;
          uvs = d_parameters X (m_domain S) resolution;
          points = map (eval_uv X S) uvs
      in setPoints mesh points)"

section \<open>An instance: a surface over straight edges\<close>

text \<open>
  The parameters instantiated with the simplest curve there is, the segment from one
  point to another over \<open>[0, 1]\<close>, and a ribbon that lifts its curve in the third
  coordinate. The theorems below are applied to it.
\<close>

type_synonym segment = "vec3 \<times> vec3"

definition seg_eval :: "segment \<Rightarrow> real \<Rightarrow> vec3" where
  "seg_eval c t = vadd (fst c) (vmul (vsub (snd c) (fst c)) t)"

definition seg_ribbon_eval :: "(nat \<Rightarrow> segment option) \<Rightarrow> unit ribbon \<Rightarrow> real \<times> real \<Rightarrow> vec3" where
  "seg_ribbon_eval h r sd =
     (case r_curve r of None \<Rightarrow> (0, 0, 0)
      | Some a \<Rightarrow> (case h a of None \<Rightarrow> (0, 0, 0)
                   | Some c \<Rightarrow> vadd (seg_eval c (fst sd)) (0, 0, snd sd)))"

definition seg_ext :: "(segment, unit, unit, unit) ext" where
  "seg_ext =
     \<lparr>epsilon = 1 / 100000000,
      c_eval = seg_eval,
      c_eval_der = (\<lambda>c t k. [seg_eval c t, vsub (snd c) (fst c)]),
      c_normalize = (\<lambda>c. c),
      c_reverse = (\<lambda>c. (snd c, fst c)),
      newRibbon = \<lparr>r_curve = None, r_prev = None, r_next = None, r_data = ()\<rparr>,
      r_update = (\<lambda>h rs r. r),
      r_eval = seg_ribbon_eval,
      d_setSide = (\<lambda>d i c. d),
      d_setSides = (\<lambda>d cs. d),
      d_update = (\<lambda>h d. (False, d)),
      d_meshTopology = (\<lambda>d k. \<lparr>tm_points = [], tm_triangles = []\<rparr>),
      d_parameters = (\<lambda>d k. []),
      p_update = (\<lambda>d p. p),
      eval_uv = (\<lambda>S uv. (0, 0, 0)),
      default_corner =
        \<lparr>point = (0, 0, 0), tangent1 = (0, 0, 0), tangent2 = (0, 0, 0),
         twist1 = (0, 0, 0), twist2 = (0, 0, 0)\<rparr>\<rparr>"

definition seg_surface :: "(nat \<Rightarrow> segment option) \<Rightarrow> nat \<Rightarrow> (segment, unit, unit, unit) surface" where
  \<comment> \<open>a fresh surface given the curves at the addresses \<open>0, \<dots>, k - 1\<close>\<close>
  "seg_surface h k = setCurves seg_ext (Surface () () h) (map Some [0..<k])"

definition unit_square :: "nat \<Rightarrow> segment option" where
  \<comment> \<open>the four edges of the unit square, each ending where the next one starts\<close>
  "unit_square =
     [0 \<mapsto> ((0, 0, 0), (1, 0, 0)), 1 \<mapsto> ((1, 0, 0), (1, 1, 0)),
      2 \<mapsto> ((1, 1, 0), (0, 1, 0)), 3 \<mapsto> ((0, 1, 0), (0, 0, 0))]"

definition flipped_square :: "nat \<Rightarrow> segment option" where
  \<comment> \<open>the same edges, the second one stored from its end to its start\<close>
  "flipped_square =
     [0 \<mapsto> ((0, 0, 0), (1, 0, 0)), 1 \<mapsto> ((1, 1, 0), (1, 0, 0)),
      2 \<mapsto> ((1, 1, 0), (0, 1, 0)), 3 \<mapsto> ((0, 1, 0), (0, 0, 0))]"

definition unit_square_corners :: "corner_data list" where
  \<comment> \<open>the corner data of the unit square\<close>
  "unit_square_corners =
     [\<lparr>point = (1, 0, 0), tangent1 = (- 1, 0, 0), tangent2 = (0, 1, 0),
       twist1 = (0, 1, 0), twist2 = (0, 0, 0)\<rparr>,
      \<lparr>point = (1, 1, 0), tangent1 = (0, - 1, 0), tangent2 = (- 1, 0, 0),
       twist1 = (- 1, 0, 0), twist2 = (0, 0, 0)\<rparr>,
      \<lparr>point = (0, 1, 0), tangent1 = (1, 0, 0), tangent2 = (0, - 1, 0),
       twist1 = (0, - 1, 0), twist2 = (0, 0, 0)\<rparr>,
      \<lparr>point = (0, 0, 0), tangent1 = (0, 1, 0), tangent2 = (1, 0, 0),
       twist1 = (1, 0, 0), twist2 = (0, 0, 0)\<rparr>]"

definition stale_corner :: corner_data where
  \<comment> \<open>corner data left from an earlier set of curves\<close>
  "stale_corner =
     \<lparr>point = (7, 7, 7), tangent1 = (7, 7, 7), tangent2 = (7, 7, 7),
      twist1 = (7, 7, 7), twist2 = (7, 7, 7)\<rparr>"

definition stale_square :: "(segment, unit, unit, unit) surface" where
  \<comment> \<open>the unit square set on a surface that had five sides before and was updated then\<close>
  "stale_square =
     (seg_surface unit_square 4)
       \<lparr>m_corner_data := [stale_corner, stale_corner, stale_corner, stale_corner, stale_corner]\<rparr>"

section \<open>Notions used to state the properties\<close>

definition next_twist ::
  "('c, 'x, 'd, 'p) ext \<Rightarrow> ('c, 'x, 'd, 'p) surface \<Rightarrow> nat \<Rightarrow> vec3 option" where
  \<comment> \<open>the finite-difference estimate \<open>(d2 - d1) / step\<close> on ribbon \<open>next i\<close> near \<open>s = 0\<close>\<close>
  "next_twist X S i =
     (case ribbon_at S (next_idx (m_n S) i) of None \<Rightarrow> None
      | Some rn \<Rightarrow>
          vdiv (vsub (r_eval X (curves S) rn (step, 1)) (r_eval X (curves S) rn (0, 1))) step)"

definition own_twist ::
  "('c, 'x, 'd, 'p) ext \<Rightarrow> ('c, 'x, 'd, 'p) surface \<Rightarrow> nat \<Rightarrow> vec3 option" where
  \<comment> \<open>the finite-difference estimate \<open>(d2 - d1) / step\<close> on ribbon \<open>i\<close> near \<open>s = 1\<close>\<close>
  "own_twist X S i =
     (case ribbon_at S i of None \<Rightarrow> None
      | Some r \<Rightarrow>
          vdiv (vsub (r_eval X (curves S) r (1 - step, 1)) (r_eval X (curves S) r (1, 1))) step)"

definition size_invariant :: "('c, 'x, 'd, 'p) surface \<Rightarrow> bool" where
  \<comment> \<open>\<^verbatim>\<open>ribbons_.size() == n_ == corner_data_.size()\<close>\<close>
  "size_invariant S \<longleftrightarrow>
     length (m_ribbons S) = m_n S \<and> m_n S = length (m_corner_data S)"

text \<open>
  The states a surface can be in: it starts as the constructor leaves it, and every
  public member function that returns takes it to the next state. The callers keep the
  pointers to their curves and may change the curves between two calls.
\<close>

inductive reachable ::
  "('c, 'x, 'd, 'p) ext \<Rightarrow> ('c, 'x, 'd, 'p) surface \<Rightarrow> bool"
  for X :: "('c, 'x, 'd, 'p) ext" where
  r_init: "reachable X (Surface d0 p0 h)"
| r_setGamma: "reachable X S \<Longrightarrow> reachable X (setGamma S b)"
| r_setCurve: "reachable X S \<Longrightarrow> setCurve X S i c = Some S' \<Longrightarrow> reachable X S'"
| r_setCurves: "reachable X S \<Longrightarrow> reachable X (setCurves X S cs)"
| r_setupLoop: "reachable X S \<Longrightarrow> setupLoop X S = Some (S', revs) \<Longrightarrow> reachable X S'"
| r_update_i: "reachable X S \<Longrightarrow> update_i X S i = Some S' \<Longrightarrow> reachable X S'"
| r_update: "reachable X S \<Longrightarrow> update X S = Some S' \<Longrightarrow> reachable X S'"
| r_eval: "reachable X S \<Longrightarrow> eval X S resolution = mesh \<Longrightarrow> reachable X S"
| r_caller: "reachable X S \<Longrightarrow> reachable X (S\<lparr>curves := h\<rparr>)"

text \<open>Any number of calls of \<^verbatim>\<open>setupLoop\<close>, \<^verbatim>\<open>eval\<close> and \<^verbatim>\<open>update()\<close>, in any order.\<close>

inductive later_calls ::
  "('c, 'x, 'd, 'p) ext \<Rightarrow> ('c, 'x, 'd, 'p) surface \<Rightarrow> ('c, 'x, 'd, 'p) surface \<Rightarrow> bool"
  for X :: "('c, 'x, 'd, 'p) ext" and S :: "('c, 'x, 'd, 'p) surface" where
  l_none: "later_calls X S S"
| l_setupLoop: "later_calls X S T \<Longrightarrow> setupLoop X T = Some (T', revs) \<Longrightarrow> later_calls X S T'"
| l_update: "later_calls X S T \<Longrightarrow> update X T = Some T' \<Longrightarrow> later_calls X S T'"
| l_eval: "later_calls X S T \<Longrightarrow> eval X T resolution = mesh \<Longrightarrow> later_calls X S T"

definition normalized_at ::
  "('c, 'x, 'd, 'p) ext \<Rightarrow> ('c, 'x, 'd, 'p) surface \<Rightarrow> nat \<Rightarrow> bool" where
  \<comment> \<open>the curve of ribbon \<open>i\<close> exists and \<^verbatim>\<open>normalize\<close> leaves it as it is\<close>
  "normalized_at X S i \<longleftrightarrow>
     (case curve_at S i of None \<Rightarrow> False | Some c \<Rightarrow> c_normalize X c = c)"

definition closed_loop :: "('c, 'x, 'd, 'p) ext \<Rightarrow> ('c, 'x, 'd, 'p) surface \<Rightarrow> bool" where
  \<comment> \<open>every curve ends where the curve of the next ribbon starts\<close>
  "closed_loop X S \<longleftrightarrow>
     (\<forall>i<m_n S.
        case curve_at S i of None \<Rightarrow> False
        | Some c \<Rightarrow>
            (case curve_at S (next_idx (m_n S) i) of None \<Rightarrow> False
             | Some cn \<Rightarrow> c_eval X c 1 = c_eval X cn 0))"

definition cornerCorrection_remapped ::
  "('c, 'x, 'd, 'p) ext \<Rightarrow> ('c, 'x, 'd, 'p) surface \<Rightarrow> nat \<Rightarrow> dbl \<Rightarrow> dbl \<Rightarrow> vec3 option" where
  \<comment> \<open>the corner correction as the specification words it: \<open>gamma\<close> is applied to both
      clamped parameters before any use, so the rational twist receives the remapped
      values too\<close>
  "cornerCorrection_remapped X S i si0 si10 =
     (let si = gamma S (dmin (dmax si0 (Fin 0)) (Fin 1));
          si1 = gamma S (dmin (dmax si10 (Fin 0)) (Fin 1)) in
      do {
        cd \<leftarrow> corner_at S i;
        u \<leftarrow> finite_value si;
        v \<leftarrow> finite_value si1;
        tw \<leftarrow> rationalTwist X u v (twist1 cd) (twist2 cd);
        Some (vadd (vadd (vadd (point cd) (vmul (tangent1 cd) u)) (vmul (tangent2 cd) v))
                (vmul (vmul tw u) v))
      })"

definition gamma_exact :: "('c, 'x, 'd, 'p) surface \<Rightarrow> real \<Rightarrow> real" where
  \<comment> \<open>the remap as a function on the reals: the quotient \<open>d / (2 d + 1)\<close> with the flag set,
      \<open>d\<close> itself with the flag cleared\<close>
  "gamma_exact S d = (if m_use_gamma S then d / (2 * d + 1) else d)"

section \<open>Facts about indices, loops and sums\<close>

lemma next_idx_if: "i < n \<Longrightarrow> next_idx n i = (if i + 1 = n then 0 else i + 1)"
  by (simp add: next_idx_def)

lemma prev_idx_if: "i < n \<Longrightarrow> prev_idx n i = (if i = 0 then n - 1 else i - 1)"
proof (cases "i = 0")
  case True
  assume "i < n"
  with True show ?thesis by (simp add: prev_idx_def)
next
  case False
  assume "i < n"
  with False have e: "i + n - 1 = (i - 1) + n" and l: "i - 1 < n" by simp_all
  have "(i + n - 1) mod n = (i - 1) mod n" unfolding e by simp
  also have "\<dots> = i - 1" using l by simp
  finally show ?thesis using False by (simp add: prev_idx_def)
qed

lemma next_idx_less: "i < n \<Longrightarrow> next_idx n i < n"
  by (simp add: next_idx_if)

lemma prev_idx_less: "i < n \<Longrightarrow> prev_idx n i < n"
  by (auto simp add: prev_idx_if)

lemma next_idx_neq: "2 \<le> n \<Longrightarrow> i < n \<Longrightarrow> next_idx n i \<noteq> i"
  by (simp add: next_idx_if)

lemma prev_idx_neq: "2 \<le> n \<Longrightarrow> i < n \<Longrightarrow> prev_idx n i \<noteq> i"
  by (auto simp add: prev_idx_if)

lemma next_prev_idx: "i < n \<Longrightarrow> next_idx n (prev_idx n i) = i"
  by (auto simp add: prev_idx_if next_idx_if)

lemma prev_next_idx: "i < n \<Longrightarrow> prev_idx n (next_idx n i) = i"
  by (auto simp add: prev_idx_if next_idx_if)

lemma next_idx_eq_iff: "i < n \<Longrightarrow> j < n \<Longrightarrow> next_idx n i = j \<longleftrightarrow> i = prev_idx n j"
  using next_prev_idx prev_next_idx by metis

lemma collect_map:
  "(\<And>x. x \<in> set xs \<Longrightarrow> f x = Some (g x)) \<Longrightarrow> collect f xs = Some (map g xs)"
  by (induction xs) simp_all

lemma sum_list_scaled: "sum_list (map (\<lambda>x. x / D) xs) = sum_list xs / (D::real)"
  by (induction xs) (simp_all add: add_divide_distrib)

lemma sum_list_positive:
  "xs \<noteq> [] \<Longrightarrow> (\<And>x. x \<in> set xs \<Longrightarrow> 0 < x) \<Longrightarrow> 0 < sum_list (xs::real list)"
proof (induction xs)
  case Nil then show ?case by simp
next
  case (Cons x xs)
  show ?case
  proof (cases "xs = []")
    case True with Cons.prems show ?thesis by simp
  next
    case False
    with Cons have "0 < sum_list xs" by simp
    moreover have "0 < x" using Cons.prems by simp
    ultimately show ?thesis by simp
  qed
qed

section \<open>Results that stay in the range of the type\<close>

lemma to_double_Fin:
  "dbl_underflow < \<bar>x\<bar> \<Longrightarrow> \<bar>x\<bar> < dbl_overflow \<Longrightarrow> to_double x = Fin x"
  by (auto simp: to_double_def)

lemma dbl_underflow_bounds: "0 < dbl_underflow" "dbl_underflow < 1 / 4"
  by (simp_all add: dbl_underflow_def)

lemma dbl_overflow_bound: "4 < dbl_overflow"
  by (simp add: dbl_overflow_def)

lemma dbl_min_underflow: "dbl_min = 2 * dbl_underflow"
  by (simp add: dbl_min_def dbl_underflow_def)

lemma sum_list_upper:
  fixes xs :: "real list"
  assumes "\<And>x. x \<in> set xs \<Longrightarrow> x \<le> hi"
  shows "sum_list xs \<le> real (length xs) * hi"
  using assms
proof (induction xs)
  case Nil then show ?case by simp
next
  case (Cons x xs)
  then have "x \<le> hi" "sum_list xs \<le> real (length xs) * hi" by simp_all
  then show ?case by (simp add: algebra_simps)
qed

lemma member_le_sum:
  fixes xs :: "real list"
  assumes "\<And>y. y \<in> set xs \<Longrightarrow> 0 \<le> y" "x \<in> set xs"
  shows "x \<le> sum_list xs"
  using assms
proof (induction xs)
  case Nil then show ?case by simp
next
  case (Cons y ys)
  have nn: "0 \<le> sum_list ys" by (rule sum_list_nonneg) (use Cons.prems in simp)
  show ?case
  proof (cases "x = y")
    case True with nn show ?thesis by simp
  next
    case False
    with Cons.prems have "x \<in> set ys" by simp
    with Cons have "x \<le> sum_list ys" by simp
    moreover have "0 \<le> y" using Cons.prems by simp
    ultimately show ?thesis by simp
  qed
qed

lemma foldl_dadd_Fin:
  assumes "\<And>x. x \<in> set xs \<Longrightarrow> lo \<le> x \<and> x \<le> hi"
    and "dbl_underflow < lo" and "a = 0 \<or> lo \<le> a"
    and "a + real (length xs) * hi < dbl_overflow"
  shows "foldl dadd (Fin a) (map Fin xs) = Fin (a + sum_list xs)"
  using assms
proof (induction xs arbitrary: a)
  case Nil then show ?case by simp
next
  case (Cons x xs)
  note u = dbl_underflow_bounds(1)
  have x: "lo \<le> x" "x \<le> hi" using Cons.prems(1) by simp_all
  have a0: "0 \<le> a" using Cons.prems(2,3) u by auto
  have hi: "0 \<le> real (length xs) * hi" using x Cons.prems(2) u by simp
  have "dbl_underflow < \<bar>a + x\<bar>" using a0 x Cons.prems(2) by simp
  moreover have "a + x \<le> a + real (length (x # xs)) * hi"
    using x hi by (simp add: algebra_simps)
  then have "\<bar>a + x\<bar> < dbl_overflow"
    using a0 x Cons.prems(2,4) u by linarith
  ultimately have s: "to_double (a + x) = Fin (a + x)" by (rule to_double_Fin)
  have "foldl dadd (Fin (a + x)) (map Fin xs) = Fin (a + x + sum_list xs)"
  proof (rule Cons.IH)
    show "\<And>y. y \<in> set xs \<Longrightarrow> lo \<le> y \<and> y \<le> hi" using Cons.prems(1) by simp
    show "dbl_underflow < lo" by (rule Cons.prems(2))
    show "a + x = 0 \<or> lo \<le> a + x" using a0 x by simp
    show "a + x + real (length xs) * hi < dbl_overflow"
      using x Cons.prems(4) by (simp add: algebra_simps)
  qed
  then show ?case by (simp add: s add.assoc)
qed

lemma normalise_Fin:
  assumes rng: "\<And>x. x \<in> set xs \<Longrightarrow> lo \<le> x \<and> x \<le> hi"
    and lo: "dbl_underflow < lo"
    and top: "real (length xs) * hi < dbl_overflow"
    and quot: "dbl_underflow * (real (length xs) * hi) < lo"
  shows "map (\<lambda>x. ddiv x (foldl dadd (Fin 0) (map Fin xs))) (map Fin xs) =
           map Fin (map (\<lambda>x. x / sum_list xs) xs)"
proof -
  note u = dbl_underflow_bounds(1)
  have D: "foldl dadd (Fin 0) (map Fin xs) = Fin (sum_list xs)"
    using foldl_dadd_Fin [of xs lo hi 0] rng lo top by simp
  have "\<And>x. x \<in> set xs \<Longrightarrow> ddiv (Fin x) (Fin (sum_list xs)) = Fin (x / sum_list xs)"
  proof -
    fix x assume x: "x \<in> set xs"
    have pos: "0 < x" using rng [OF x] lo u by simp
    have nn: "\<And>y. y \<in> set xs \<Longrightarrow> 0 \<le> y" using rng lo u by fastforce
    have le: "x \<le> sum_list xs" using nn x by (rule member_le_sum)
    then have Dpos: "0 < sum_list xs" using pos by simp
    have up: "sum_list xs \<le> real (length xs) * hi"
      by (rule sum_list_upper) (use rng in simp)
    then have npos: "0 < real (length xs) * hi" using Dpos by simp
    have "dbl_underflow < lo / (real (length xs) * hi)"
      using quot npos by (simp add: field_simps)
    also have "\<dots> \<le> x / (real (length xs) * hi)"
      using rng [OF x] npos by (simp add: divide_right_mono)
    also have "\<dots> \<le> x / sum_list xs"
      using up Dpos pos by (simp add: frac_le)
    finally have 1: "dbl_underflow < \<bar>x / sum_list xs\<bar>" using pos Dpos by simp
    have "x / sum_list xs \<le> 1" using le Dpos by simp
    moreover have "0 < x / sum_list xs" using pos Dpos by simp
    ultimately have 2: "\<bar>x / sum_list xs\<bar> < dbl_overflow"
      using dbl_overflow_bound by linarith
    have "to_double (x / sum_list xs) = Fin (x / sum_list xs)"
      using 1 2 by (rule to_double_Fin)
    then show "ddiv (Fin x) (Fin (sum_list xs)) = Fin (x / sum_list xs)"
      using Dpos by simp
  qed
  then show ?thesis by (simp add: D)
qed

lemma inverse_square_bounds:
  fixes d :: real
  assumes "0 < L" "L \<le> d" "d \<le> H"
  shows "1 / H\<^sup>2 \<le> 1 / d\<^sup>2" "1 / d\<^sup>2 \<le> 1 / L\<^sup>2"
proof -
  have d: "0 < d" using assms by simp
  have "d\<^sup>2 \<le> H\<^sup>2" using assms d by (simp add: power_mono)
  then show "1 / H\<^sup>2 \<le> 1 / d\<^sup>2" using d by (simp add: frac_le)
  have "L\<^sup>2 \<le> d\<^sup>2" using assms by (simp add: power_mono)
  then show "1 / d\<^sup>2 \<le> 1 / L\<^sup>2" using assms by (simp add: frac_le)
qed

lemma pow_neg2_Fin:
  assumes "dbl_underflow < 1 / d\<^sup>2" "1 / d\<^sup>2 < dbl_overflow"
  shows "pow (Fin d) (- 2) = Fin (1 / d\<^sup>2)"
proof -
  have nz: "d \<noteq> 0" using assms(1) dbl_underflow_bounds(1) by auto
  have e: "d powi (- 2) = 1 / d\<^sup>2" by (simp add: power_int_minus field_simps)
  have "to_double (1 / d\<^sup>2) = Fin (1 / d\<^sup>2)"
    by (rule to_double_Fin) (use assms in simp_all)
  then show ?thesis using nz by (simp add: e)
qed

lemma side_distance_power:
  fixes d :: real
  assumes "1 / 2 ^ 100 \<le> d" "d \<le> 2 ^ 100"
  shows "1 / 2 ^ 200 \<le> 1 / d\<^sup>2" "1 / d\<^sup>2 \<le> 2 ^ 200" "pow (Fin d) (- 2) = Fin (1 / d\<^sup>2)"
proof -
  have "(0::real) < 1 / 2 ^ 100" by simp
  from inverse_square_bounds [OF this assms]
  show a: "1 / 2 ^ 200 \<le> 1 / d\<^sup>2" and b: "1 / d\<^sup>2 \<le> 2 ^ 200"
    by (simp_all add: power_divide flip: power_mult)
  have "dbl_underflow < 1 / 2 ^ 200" "(2::real) ^ 200 < dbl_overflow"
    by (simp_all add: dbl_underflow_def dbl_overflow_def)
  with a b show "pow (Fin d) (- 2) = Fin (1 / d\<^sup>2)"
    by (intro pow_neg2_Fin) simp_all
qed

lemma side_count_range:
  assumes "n < size_range"
  shows "real n * 2 ^ 400 < dbl_overflow" "dbl_underflow * (real n * 2 ^ 400) < 1 / 2 ^ 400"
proof -
  have n: "real n < 2 ^ 64" using assms by (simp add: size_range_def flip: of_nat_less_iff)
  then have "real n * 2 ^ 400 < 2 ^ 64 * 2 ^ 400" by simp
  then have m: "real n * 2 ^ 400 < 2 ^ 464" by (simp flip: power_add)
  moreover have "(2::real) ^ 464 < dbl_overflow" by (simp add: dbl_overflow_def)
  ultimately show "real n * 2 ^ 400 < dbl_overflow" by simp
  have "dbl_underflow * (real n * 2 ^ 400) \<le> dbl_underflow * 2 ^ 464"
    using m dbl_underflow_bounds(1) by simp
  also have "\<dots> < 1 / 2 ^ 400" by (simp add: dbl_underflow_def)
  finally show "dbl_underflow * (real n * 2 ^ 400) < 1 / 2 ^ 400" .
qed

lemma equal_share_Fin:
  assumes "0 < k" "k < size_range"
  shows "ddiv (Fin 1) (Fin (real k)) = Fin (1 / real k)"
proof -
  have k: "real k < 2 ^ 64" "1 \<le> real k"
    using assms by (simp_all add: size_range_def flip: of_nat_less_iff)
  then have "1 / 2 ^ 64 < 1 / real k" by (simp add: frac_less2)
  moreover have "dbl_underflow < 1 / 2 ^ 64" by (simp add: dbl_underflow_def)
  ultimately have "dbl_underflow < \<bar>1 / real k\<bar>" by simp
  moreover have "1 / real k \<le> 1" "0 < 1 / real k" using k by simp_all
  then have "\<bar>1 / real k\<bar> < dbl_overflow" using dbl_overflow_bound by linarith
  ultimately have "to_double (1 / real k) = Fin (1 / real k)" by (rule to_double_Fin)
  then show ?thesis using assms by simp
qed

lemma corner_distance_power:
  fixes a b :: real
  assumes a: "1 / 2 ^ 100 \<le> a" "a \<le> 2 ^ 100" and b: "1 / 2 ^ 100 \<le> b" "b \<le> 2 ^ 100"
  shows "pow (dmul (Fin a) (Fin b)) (- 2) = Fin (1 / (a * b)\<^sup>2)"
    and "1 / 2 ^ 400 \<le> 1 / (a * b)\<^sup>2" and "1 / (a * b)\<^sup>2 \<le> 2 ^ 400"
proof -
  have L: "(0::real) < 1 / 2 ^ 100" by simp
  have a0: "0 < a" and b0: "0 < b" using a(1) b(1) L by linarith+
  have "(1 / 2 ^ 100) * (1 / 2 ^ 100) \<le> a * b"
    using a(1) b(1) a0 by (intro mult_mono) simp_all
  then have lo: "1 / 2 ^ 200 \<le> a * b" by (simp flip: power_add)
  have "a * b \<le> 2 ^ 100 * 2 ^ 100"
    using a(2) b(2) b0 by (intro mult_mono) simp_all
  then have hi: "a * b \<le> 2 ^ 200" by (simp flip: power_add)
  have "dbl_underflow < 1 / 2 ^ 200" "(2::real) ^ 200 < dbl_overflow"
    by (simp_all add: dbl_underflow_def dbl_overflow_def)
  with lo hi have "dbl_underflow < \<bar>a * b\<bar>" "\<bar>a * b\<bar> < dbl_overflow"
    using a0 b0 by simp_all
  then have m: "dmul (Fin a) (Fin b) = Fin (a * b)" by (simp add: to_double_Fin)
  have "(0::real) < 1 / 2 ^ 200" by simp
  from inverse_square_bounds [OF this lo hi]
  show l: "1 / 2 ^ 400 \<le> 1 / (a * b)\<^sup>2" and h: "1 / (a * b)\<^sup>2 \<le> 2 ^ 400"
    by (simp_all add: power_divide flip: power_mult)
  have "dbl_underflow < 1 / 2 ^ 400" "(2::real) ^ 400 < dbl_overflow"
    by (simp_all add: dbl_underflow_def dbl_overflow_def)
  with l h have "pow (Fin (a * b)) (- 2) = Fin (1 / (a * b)\<^sup>2)"
    by (intro pow_neg2_Fin) simp_all
  then show "pow (dmul (Fin a) (Fin b)) (- 2) = Fin (1 / (a * b)\<^sup>2)"
    unfolding m .
qed

lemma two_share_Fin:
  fixes a b :: real
  assumes a: "1 / 2 ^ 200 \<le> a" "a \<le> 2 ^ 200" and b: "1 / 2 ^ 200 \<le> b" "b \<le> 2 ^ 200"
  shows "ddiv (Fin a) (dadd (Fin a) (Fin b)) = Fin (a / (a + b))"
proof -
  have L: "(0::real) < 1 / 2 ^ 200" by simp
  have a0: "0 < a" and b0: "0 < b" using a(1) b(1) L by linarith+
  have s: "a + b \<le> 2 ^ 201" using a(2) b(2) by simp
  have "dbl_underflow < 1 / 2 ^ 200" "(2::real) ^ 201 < dbl_overflow"
    by (simp_all add: dbl_underflow_def dbl_overflow_def)
  then have "dbl_underflow < \<bar>a + b\<bar>" "\<bar>a + b\<bar> < dbl_overflow"
    using a(1) a0 b0 s by linarith+
  then have 1: "to_double (a + b) = Fin (a + b)" by (rule to_double_Fin)
  have "(1 / 2 ^ 200) / 2 ^ 201 \<le> a / (a + b)"
    using a(1) s a0 b0 by (intro frac_le) simp_all
  moreover have "dbl_underflow < (1 / 2 ^ 200) / 2 ^ 201"
    by (simp add: dbl_underflow_def)
  ultimately have "dbl_underflow < \<bar>a / (a + b)\<bar>" by linarith
  moreover have "a / (a + b) \<le> 1" "0 < a / (a + b)" using a0 b0 by simp_all
  then have "\<bar>a / (a + b)\<bar> < dbl_overflow" using dbl_overflow_bound by linarith
  ultimately have "to_double (a / (a + b)) = Fin (a / (a + b))" by (rule to_double_Fin)
  then show ?thesis using a0 b0 by (simp add: 1)
qed

section \<open>Blend weights, branch by branch\<close>

lemma d_at_in_range: "i < length sds \<Longrightarrow> d_at sds i = Some (snd (sds ! i))"
  by (simp add: d_at_def)

lemma sum_list_indicator:
  "sum_list (map (\<lambda>i. if Q i then 1 else 0) [0..<n]) = real (card {i. i < n \<and> Q i})"
proof (induction n)
  case 0
  then show ?case by simp
next
  case (Suc n)
  have split: "{i. i < Suc n \<and> Q i} = (if Q n then insert n {i. i < n \<and> Q i} else {i. i < n \<and> Q i})"
    by (auto simp: less_Suc_eq)
  show ?case using Suc by (simp add: split)
qed

lemma single_close_side:
  assumes "length (filter P xs) = 1"
  shows "\<exists>i<length xs. P (xs ! i) \<and> (\<forall>j<length xs. P (xs ! j) \<longrightarrow> j = i)"
proof -
  from assms have "card {i. i < length xs \<and> P (xs ! i)} = 1"
    by (simp add: length_filter_conv_card)
  then obtain i where "{i. i < length xs \<and> P (xs ! i)} = {i}"
    by (rule card_1_singletonE)
  then have "\<And>j. (j < length xs \<and> P (xs ! j)) = (j = i)"
    by auto
  then show ?thesis by blast
qed

lemma two_term_sum:
  fixes g :: "nat \<Rightarrow> real"
  assumes "i < n" "p < n" "p \<noteq> i" "\<And>j. j < n \<Longrightarrow> j \<noteq> i \<Longrightarrow> j \<noteq> p \<Longrightarrow> g j = 0"
  shows "sum_list (map g [0..<n]) = g i + g p"
proof -
  have "sum_list (map g [0..<n]) = sum g {0..<n}"
    by (simp add: interv_sum_list_conv_sum_set_nat)
  also have "\<dots> = sum g {i, p}"
    by (rule sum.mono_neutral_right) (use assms in auto)
  also have "\<dots> = g i + g p"
    using assms(3) by simp
  finally show ?thesis .
qed

lemma sum_list_equal_shares:
  "sum_list (map (\<lambda>x. if P x then c else 0) xs) = real (length (filter P xs)) * (c::real)"
  by (induction xs) (simp_all add: algebra_simps)

lemma adjacent_pair_corner:
  assumes n: "3 \<le> n" and i0: "i0 < n"
    and B: "\<And>j. j < n \<Longrightarrow> P j \<longleftrightarrow> j = i0 \<or> j = next_idx n i0"
  shows "{i. i < n \<and> P i \<and> P (next_idx n i)} = {i0}"
proof -
  have nx: "next_idx n i0 < n" using i0 by (rule next_idx_less)
  have nn: "next_idx n (next_idx n i0) < n" using nx by (rule next_idx_less)
  have d1: "next_idx n i0 \<noteq> i0" using n i0 by (simp add: next_idx_neq)
  have d2: "next_idx n (next_idx n i0) \<noteq> next_idx n i0" using n nx by (simp add: next_idx_neq)
  have d3: "next_idx n (next_idx n i0) \<noteq> i0" using n i0 by (auto simp: next_idx_if)
  have "P i0" "P (next_idx n i0)" "\<not> P (next_idx n (next_idx n i0))"
    using B [OF i0] B [OF nx] B [OF nn] d2 d3 by auto
  then show ?thesis using B i0 d1 by auto
qed

lemma adjacent_pair_count:
  assumes n: "3 \<le> length xs" and i0: "i0 < length xs"
    and B: "\<And>j. j < length xs \<Longrightarrow> P (xs ! j) \<longleftrightarrow> j = i0 \<or> j = next_idx (length xs) i0"
  shows "length (filter P xs) = 2"
proof -
  have nx: "next_idx (length xs) i0 < length xs" using i0 by (rule next_idx_less)
  have d1: "next_idx (length xs) i0 \<noteq> i0" using n i0 by (simp add: next_idx_neq)
  have "{i. i < length xs \<and> P (xs ! i)} = {i0, next_idx (length xs) i0}"
    using B i0 nx by auto
  then show ?thesis using d1 by (simp add: length_filter_conv_card)
qed

lemma distances_nth:
  assumes "map snd sds = map Fin ds"
  shows "length ds = length sds" and "\<And>i. i < length sds \<Longrightarrow> snd (sds ! i) = Fin (ds ! i)"
proof -
  show l: "length ds = length sds" using assms by (metis length_map)
  fix i assume i: "i < length sds"
  then have "snd (sds ! i) = map snd sds ! i" by simp
  also have "\<dots> = Fin (ds ! i)" unfolding assms using i l by simp
  finally show "snd (sds ! i) = Fin (ds ! i)" .
qed

lemma far_distance:
  assumes ds: "map snd sds = map Fin ds"
    and rng: "\<forall>d\<in>set ds. d < epsilon X \<or> (1 / 2 ^ 100 \<le> d \<and> d \<le> 2 ^ 100)"
    and i: "i < length sds" and far: "\<not> dless (snd (sds ! i)) (Fin (epsilon X))"
  shows "1 / 2 ^ 100 \<le> ds ! i" "ds ! i \<le> 2 ^ 100"
proof -
  note n = distances_nth [OF ds]
  have "ds ! i \<in> set ds" using i n(1) by simp
  moreover have "\<not> ds ! i < epsilon X" using far n(2) [OF i] by simp
  ultimately show "1 / 2 ^ 100 \<le> ds ! i" "ds ! i \<le> 2 ^ 100" using rng by blast+
qed

lemma no_side_close:
  "close_to_boundary X sds = 0 \<Longrightarrow> i < length sds \<Longrightarrow>
     \<not> dless (snd (sds ! i)) (Fin (epsilon X))"
  by (auto simp: close_to_boundary_def filter_empty_conv)

lemma close_to_boundary_le: "close_to_boundary X sds \<le> length sds"
  by (simp add: close_to_boundary_def)

lemma side_powers:
  assumes "\<And>d. d \<in> set ds \<Longrightarrow> 1 / 2 ^ 100 \<le> d \<and> d \<le> 2 ^ 100"
  shows "map (\<lambda>x. pow x (- 2)) (map Fin ds) = map Fin (map (\<lambda>d. 1 / d\<^sup>2) ds)"
proof -
  have "\<And>d. d \<in> set ds \<Longrightarrow> pow (Fin d) (- 2) = Fin (1 / d\<^sup>2)"
    using assms side_distance_power(3) by blast
  then show ?thesis by (simp del: pow.simps)
qed

lemma blendSideSingular_interior:
  assumes sz: "length sds < size_range" and k: "close_to_boundary X sds = 0"
    and ds: "map snd sds = map Fin ds"
    and rng: "\<And>d. d \<in> set ds \<Longrightarrow> 1 / 2 ^ 100 \<le> d \<and> d \<le> 2 ^ 100"
  shows "blendSideSingular X S sds = map (\<lambda>d. Fin ((1 / d\<^sup>2) / (\<Sum>e\<leftarrow>ds. 1 / e\<^sup>2))) ds"
proof -
  let ?xs = "map (\<lambda>d. 1 / d\<^sup>2) ds"
  have len: "length ds = length sds"
    using ds by (metis length_map)
  have "map (\<lambda>sd. pow (snd sd) (- 2)) sds = map (\<lambda>x. pow x (- 2)) (map snd sds)"
    by simp
  also have "\<dots> = map Fin ?xs"
    unfolding ds using rng by (rule side_powers)
  finally have blf: "map (\<lambda>sd. pow (snd sd) (- 2)) sds = map Fin ?xs" .
  have r: "\<And>x. x \<in> set ?xs \<Longrightarrow> 1 / 2 ^ 400 \<le> x \<and> x \<le> 2 ^ 400"
  proof -
    fix x assume "x \<in> set ?xs"
    then obtain d where d: "d \<in> set ds" and x: "x = 1 / d\<^sup>2" by auto
    note b = rng [OF d, THEN conjunct1] rng [OF d, THEN conjunct2]
    have "1 / 2 ^ 200 \<le> x" "x \<le> 2 ^ 200"
      unfolding x by (rule side_distance_power [OF b])+
    moreover have "(1::real) / 2 ^ 400 \<le> 1 / 2 ^ 200" "(2::real) ^ 200 \<le> 2 ^ 400" by simp_all
    ultimately show "1 / 2 ^ 400 \<le> x \<and> x \<le> 2 ^ 400" by linarith
  qed
  have n: "length ?xs < size_range" using sz len by simp
  have "map (\<lambda>x. ddiv x (foldl dadd (Fin 0) (map Fin ?xs))) (map Fin ?xs) =
          map Fin (map (\<lambda>x. x / sum_list ?xs) ?xs)"
  proof (rule normalise_Fin [where lo = "1 / 2 ^ 400" and hi = "2 ^ 400"])
    show "\<And>x. x \<in> set ?xs \<Longrightarrow> 1 / 2 ^ 400 \<le> x \<and> x \<le> 2 ^ 400" by (rule r)
    show "dbl_underflow < 1 / 2 ^ 400" by (simp add: dbl_underflow_def)
    show "real (length ?xs) * 2 ^ 400 < dbl_overflow" using n by (rule side_count_range)
    show "dbl_underflow * (real (length ?xs) * 2 ^ 400) < 1 / 2 ^ 400"
      using n by (rule side_count_range)
  qed
  then show ?thesis
    using k by (simp add: blendSideSingular_def blf Let_def comp_def)
qed

lemma blendCorner_interior_sum:
  assumes len: "length sds = m_n S" and n: "0 < m_n S" and sz: "m_n S < size_range"
    and ds: "map snd sds = map Fin ds"
    and rng: "\<forall>d\<in>set ds. d < epsilon X \<or> (1 / 2 ^ 100 \<le> d \<and> d \<le> 2 ^ 100)"
    and k: "close_to_boundary X sds = 0"
  shows "\<exists>ws. blendCorner X S sds = Some (map Fin ws) \<and> sum_list ws = 1"
proof -
  let ?n = "m_n S"
  let ?g = "\<lambda>i. 1 / (ds ! i * ds ! next_idx ?n i)\<^sup>2"
  let ?xs = "map ?g [0..<?n]"
  note nth = distances_nth(2) [OF ds]
  have far: "\<And>i. i < ?n \<Longrightarrow> 1 / 2 ^ 100 \<le> ds ! i" "\<And>i. i < ?n \<Longrightarrow> ds ! i \<le> 2 ^ 100"
    using far_distance [OF ds rng] no_side_close [OF k] len by simp_all
  have each: "\<And>i. i \<in> set [0..<?n] \<Longrightarrow> blendCorner_interior S sds i = Some (Fin (?g i))"
  proof -
    fix i assume "i \<in> set [0..<?n]"
    then have i: "i < ?n" by simp
    then have j: "next_idx ?n i < ?n" by (rule next_idx_less)
    have "pow (dmul (Fin (ds ! i)) (Fin (ds ! next_idx ?n i))) (- 2) = Fin (?g i)"
      by (rule corner_distance_power) (rule far [OF i] far [OF j])+
    then show "blendCorner_interior S sds i = Some (Fin (?g i))"
      using i j len nth by (simp add: blendCorner_interior_def d_at_in_range del: pow.simps dmul.simps)
  qed
  have "collect (blendCorner_interior S sds) [0..<?n] = Some (map (\<lambda>i. Fin (?g i)) [0..<?n])"
    using each by (rule collect_map)
  then have blf: "collect (blendCorner_interior S sds) [0..<?n] = Some (map Fin ?xs)"
    by (simp add: comp_def)
  have r: "\<And>x. x \<in> set ?xs \<Longrightarrow> 1 / 2 ^ 400 \<le> x \<and> x \<le> 2 ^ 400"
  proof -
    fix x assume "x \<in> set ?xs"
    then obtain i where i: "i < ?n" and x: "x = ?g i" by auto
    have j: "next_idx ?n i < ?n" using i by (rule next_idx_less)
    show "1 / 2 ^ 400 \<le> x \<and> x \<le> 2 ^ 400"
      unfolding x by (rule conjI) (rule corner_distance_power, (rule far [OF i] far [OF j])+)+
  qed
  have l: "length ?xs < size_range" using sz by simp
  have norm: "map (\<lambda>x. ddiv x (foldl dadd (Fin 0) (map Fin ?xs))) (map Fin ?xs) =
          map Fin (map (\<lambda>x. x / sum_list ?xs) ?xs)"
  proof (rule normalise_Fin [where lo = "1 / 2 ^ 400" and hi = "2 ^ 400"])
    show "\<And>x. x \<in> set ?xs \<Longrightarrow> 1 / 2 ^ 400 \<le> x \<and> x \<le> 2 ^ 400" by (rule r)
    show "dbl_underflow < 1 / 2 ^ 400" by (simp add: dbl_underflow_def)
    show "real (length ?xs) * 2 ^ 400 < dbl_overflow" using l by (rule side_count_range)
    show "dbl_underflow * (real (length ?xs) * 2 ^ 400) < 1 / 2 ^ 400"
      using l by (rule side_count_range)
  qed
  have "0 < sum_list ?xs"
  proof (rule sum_list_positive)
    show "?xs \<noteq> []" using n by simp
  next
    fix x assume "x \<in> set ?xs"
    from r [OF this] have "1 / 2 ^ 400 \<le> x" by (rule conjunct1)
    moreover have "(0::real) < 1 / 2 ^ 400" by simp
    ultimately show "0 < x" by linarith
  qed
  then have one: "sum_list (map (\<lambda>x. x / sum_list ?xs) ?xs) = 1"
    by (simp only: sum_list_scaled) simp
  have "blendCorner X S sds = Some (map Fin (map (\<lambda>x. x / sum_list ?xs) ?xs))"
    using k blf norm by (simp add: blendCorner_def)
  with one show ?thesis by blast
qed

lemma blendCorner_corner_sum:
  assumes len: "length sds = m_n S" and k: "2 \<le> close_to_boundary X sds"
  shows "\<exists>ws. blendCorner X S sds = Some (map Fin ws) \<and>
           sum_list ws = real (card {i. i < m_n S \<and> dless (snd (sds ! i)) (Fin (epsilon X)) \<and>
                                      dless (snd (sds ! next_idx (m_n S) i)) (Fin (epsilon X))})"
proof -
  let ?n = "m_n S"
  let ?Q = "\<lambda>i. dless (snd (sds ! i)) (Fin (epsilon X)) \<and>
                 dless (snd (sds ! next_idx ?n i)) (Fin (epsilon X))"
  have each: "\<And>i. i \<in> set [0..<?n] \<Longrightarrow>
      blendCorner_boundary X S sds (close_to_boundary X sds) i
        = Some (Fin (if ?Q i then 1 else 0))"
  proof -
    fix i assume "i \<in> set [0..<?n]"
    then have i: "i < ?n" by simp
    then have j: "next_idx ?n i < ?n" by (rule next_idx_less)
    show "blendCorner_boundary X S sds (close_to_boundary X sds) i
        = Some (Fin (if ?Q i then 1 else 0))"
      using i j len k by (simp add: blendCorner_boundary_def d_at_in_range)
  qed
  have "collect (blendCorner_boundary X S sds (close_to_boundary X sds)) [0..<?n] =
      Some (map (\<lambda>i. Fin (if ?Q i then 1 else 0)) [0..<?n])"
    using each by (rule collect_map)
  then have "blendCorner X S sds = Some (map Fin (map (\<lambda>i. if ?Q i then 1 else 0) [0..<?n]))"
    using k by (simp add: blendCorner_def comp_def)
  moreover have "sum_list (map (\<lambda>i. if ?Q i then 1 else 0) [0..<?n]) =
      real (card {i. i < ?n \<and> ?Q i})"
    by (rule sum_list_indicator)
  ultimately show ?thesis by blast
qed

lemma blendCorner_side_sum:
  assumes len: "length sds = m_n S" and n: "2 \<le> m_n S"
    and ds: "map snd sds = map Fin ds"
    and rng: "\<forall>d\<in>set ds. d < epsilon X \<or> (1 / 2 ^ 100 \<le> d \<and> d \<le> 2 ^ 100)"
    and k: "close_to_boundary X sds = 1"
  shows "\<exists>ws. blendCorner X S sds = Some (map Fin ws) \<and> sum_list ws = 1"
proof -
  let ?n = "m_n S"
  let ?close = "\<lambda>j. dless (snd (sds ! j)) (Fin (epsilon X))"
  note nth = distances_nth(2) [OF ds]
  from k obtain i0 where i0: "i0 < ?n" and close: "?close i0"
    and only: "\<And>j. j < ?n \<Longrightarrow> ?close j \<Longrightarrow> j = i0"
    using single_close_side [of "\<lambda>sd. dless (snd sd) (Fin (epsilon X))" sds] len
    unfolding close_to_boundary_def by auto
  let ?nx = "next_idx ?n i0" and ?pr = "prev_idx ?n i0"
  have nx: "?nx < ?n" "?nx \<noteq> i0" and pr: "?pr < ?n" "?pr \<noteq> i0"
    using i0 n by (simp_all add: next_idx_less next_idx_neq prev_idx_less prev_idx_neq)
  have fnx: "\<not> ?close ?nx" and fpr: "\<not> ?close ?pr"
    using only [OF nx(1)] nx(2) only [OF pr(1)] pr(2) by blast+
  have lnx: "?nx < length sds" and lpr: "?pr < length sds" using nx pr len by simp_all
  note rnx = far_distance [OF ds rng lnx fnx] and rpr = far_distance [OF ds rng lpr fpr]
  define a where "a = 1 / (ds ! ?nx)\<^sup>2"
  define b where "b = 1 / (ds ! ?pr)\<^sup>2"
  have ra: "1 / 2 ^ 200 \<le> a" "a \<le> 2 ^ 200" and rb: "1 / 2 ^ 200 \<le> b" "b \<le> 2 ^ 200"
    unfolding a_def b_def by (rule side_distance_power [OF rnx] side_distance_power [OF rpr])+
  have pa: "pow (snd (sds ! ?nx)) (- 2) = Fin a" and pb: "pow (snd (sds ! ?pr)) (- 2) = Fin b"
    unfolding a_def b_def nth [OF lnx] nth [OF lpr]
    by (rule side_distance_power [OF rnx] side_distance_power [OF rpr])+
  have sa: "ddiv (Fin a) (dadd (Fin a) (Fin b)) = Fin (a / (a + b))"
    using ra rb by (rule two_share_Fin)
  have sb: "ddiv (Fin b) (dadd (Fin b) (Fin a)) = Fin (b / (b + a))"
    using rb ra by (rule two_share_Fin)
  have a: "0 < a" and b: "0 < b"
    using ra(1) rb(1) by (simp_all add: less_le_trans [of 0 "1 / 2 ^ 200"])
  let ?g = "\<lambda>i. if i = i0 then a / (a + b) else if i = ?pr then b / (b + a) else 0"
  have each: "\<And>i. i \<in> set [0..<?n] \<Longrightarrow> blendCorner_boundary X S sds 1 i = Some (Fin (?g i))"
  proof -
    fix i assume "i \<in> set [0..<?n]"
    then have i: "i < ?n" by simp
    then have j: "next_idx ?n i < ?n" by (rule next_idx_less)
    show "blendCorner_boundary X S sds 1 i = Some (Fin (?g i))"
    proof (cases "i = i0")
      case True
      then show ?thesis
        using i0 close nx pr len
        by (simp add: blendCorner_boundary_def d_at_in_range pa pb sa
            del: pow.simps dadd.simps ddiv.simps)
    next
      case False
      then have far: "\<not> ?close i" using only [OF i] by blast
      show ?thesis
      proof (cases "i = ?pr")
        case True
        then have e: "next_idx ?n i = i0" using i0 by (simp add: next_prev_idx)
        show ?thesis
          using False True far close i i0 nx len
          by (simp add: blendCorner_boundary_def d_at_in_range next_prev_idx pa pb sb
              del: pow.simps dadd.simps ddiv.simps)
      next
        case np: False
        then have "next_idx ?n i \<noteq> i0" using i i0 next_idx_eq_iff by blast
        then have "\<not> ?close (next_idx ?n i)" using only [OF j] by blast
        then show ?thesis
          using False np far i j len
          by (simp add: blendCorner_boundary_def d_at_in_range)
      qed
    qed
  qed
  have "collect (blendCorner_boundary X S sds 1) [0..<?n] = Some (map (\<lambda>i. Fin (?g i)) [0..<?n])"
    using each by (rule collect_map)
  then have blf: "blendCorner X S sds = Some (map Fin (map ?g [0..<?n]))"
    using k by (simp add: blendCorner_def comp_def)
  have "sum_list (map ?g [0..<?n]) = ?g i0 + ?g ?pr"
    by (rule two_term_sum [OF i0 pr]) simp
  also have "\<dots> = a / (a + b) + b / (b + a)"
    using pr(2) by simp
  also have "\<dots> = 1"
    using a b by (simp add: add.commute flip: add_divide_distrib)
  finally have "sum_list (map ?g [0..<?n]) = 1" .
  with blf show ?thesis by blast
qed

lemma blendSideSingular_sum:
  assumes ne: "sds \<noteq> []" and sz: "length sds < size_range"
    and ds: "map snd sds = map Fin ds"
    and rng: "\<forall>d\<in>set ds. d < epsilon X \<or> (1 / 2 ^ 100 \<le> d \<and> d \<le> 2 ^ 100)"
  shows "\<exists>ws. blendSideSingular X S sds = map Fin ws \<and> sum_list ws = 1"
proof (cases "close_to_boundary X sds = 0")
  case False
  let ?k = "close_to_boundary X sds"
  let ?P = "\<lambda>sd. dless (snd sd) (Fin (epsilon X))"
  have "?k < size_range" using close_to_boundary_le [of X sds] sz by simp
  with False have "ddiv (Fin 1) (Fin (real ?k)) = Fin (1 / real ?k)"
    by (intro equal_share_Fin) simp_all
  then have "blendSideSingular X S sds = map (\<lambda>sd. Fin (if ?P sd then 1 / real ?k else 0)) sds"
    using False by (simp add: blendSideSingular_def Let_def if_distrib [of Fin] cong: if_cong)
  then have "blendSideSingular X S sds = map Fin (map (\<lambda>sd. if ?P sd then 1 / real ?k else 0) sds)"
    by (simp add: comp_def)
  moreover have "sum_list (map (\<lambda>sd. if ?P sd then 1 / real ?k else 0) sds) = 1"
    using False by (simp add: sum_list_equal_shares close_to_boundary_def)
  ultimately show ?thesis by blast
next
  case k: True
  note l = distances_nth(1) [OF ds]
  have far: "\<And>d. d \<in> set ds \<Longrightarrow> 1 / 2 ^ 100 \<le> d \<and> d \<le> 2 ^ 100"
  proof -
    fix d assume "d \<in> set ds"
    then obtain i where i: "i < length sds" and d: "d = ds ! i"
      using l by (auto simp: in_set_conv_nth)
    show "1 / 2 ^ 100 \<le> d \<and> d \<le> 2 ^ 100"
      unfolding d using far_distance [OF ds rng i no_side_close [OF k i]] by (rule conjI)
  qed
  let ?xs = "map (\<lambda>d. 1 / d\<^sup>2) ds"
  have w: "blendSideSingular X S sds = map (\<lambda>d. Fin ((1 / d\<^sup>2) / sum_list ?xs)) ds"
    using sz k ds far by (rule blendSideSingular_interior)
  have "0 < sum_list ?xs"
  proof (rule sum_list_positive)
    show "?xs \<noteq> []" using ne l by auto
  next
    fix x assume "x \<in> set ?xs"
    then obtain d where d: "d \<in> set ds" and x: "x = 1 / d\<^sup>2" by auto
    from far [OF d] have "(0::real) < d"
      by (simp add: less_le_trans [of 0 "1 / 2 ^ 100"])
    then show "0 < x" unfolding x by simp
  qed
  then have "sum_list (map (\<lambda>x. x / sum_list ?xs) ?xs) = 1"
    by (simp only: sum_list_scaled) simp
  moreover have "blendSideSingular X S sds = map Fin (map (\<lambda>x. x / sum_list ?xs) ?xs)"
    unfolding w by (simp add: comp_def)
  ultimately show ?thesis by blast
qed

section \<open>The effect of \<^verbatim>\<open>updateCorner\<close> and \<^verbatim>\<open>update\<close>\<close>

lemma for_each_preserves:
  assumes "\<And>s i s'. f s i = Some s' \<Longrightarrow> P s \<Longrightarrow> P s'"
  shows "for_each f js s = Some s' \<Longrightarrow> P s \<Longrightarrow> P s'"
proof (induction js arbitrary: s)
  case Nil
  then show ?case by simp
next
  case (Cons j js)
  from Cons.prems(1) obtain s1 where 1: "f s j = Some s1" and 2: "for_each f js s1 = Some s'"
    by (auto split: option.splits)
  from assms [OF 1 Cons.prems(2)] have "P s1" .
  with Cons.IH [OF 2] show ?case .
qed

lemma updateCorner_Some:
  assumes "updateCorner X S i = Some S'"
  shows "\<exists>cd. i < length (m_corner_data S) \<and>
           S' = S\<lparr>m_corner_data := (m_corner_data S)[i := cd]\<rparr> \<and>
           next_twist X S i = Some (twist1 cd) \<and>
           twist2 cd = twist2 (m_corner_data S ! i)"
  using assms
  by (auto simp: updateCorner_def next_twist_def corner_at_def Let_def
      split: if_splits Option.bind_splits)


lemma next_twist_cong:
  "m_n T = m_n S \<Longrightarrow> m_ribbons T = m_ribbons S \<Longrightarrow> curves T = curves S
     \<Longrightarrow> next_twist X T i = next_twist X S i"
  by (simp add: next_twist_def ribbon_at_def slot_def split: option.splits)

lemma updateCorner_loop:
  "for_each (updateCorner X) js S = Some S' \<Longrightarrow> distinct js \<Longrightarrow>
     m_n S' = m_n S \<and> m_ribbons S' = m_ribbons S \<and> curves S' = curves S \<and>
     length (m_corner_data S') = length (m_corner_data S) \<and>
     (\<forall>j. j \<notin> set js \<longrightarrow> m_corner_data S' ! j = m_corner_data S ! j) \<and>
     (\<forall>i\<in>set js. next_twist X S i = Some (twist1 (m_corner_data S' ! i)) \<and>
                  twist2 (m_corner_data S' ! i) = twist2 (m_corner_data S ! i))"
proof (induction js arbitrary: S)
  case Nil
  then show ?case by simp
next
  case (Cons j js)
  from Cons.prems(1) obtain S1 where 1: "updateCorner X S j = Some S1"
    and 2: "for_each (updateCorner X) js S1 = Some S'"
    by (auto split: option.splits)
  from updateCorner_Some [OF 1] obtain cd where j: "j < length (m_corner_data S)"
    and S1: "S1 = S\<lparr>m_corner_data := (m_corner_data S)[j := cd]\<rparr>"
    and tw: "next_twist X S j = Some (twist1 cd)" "twist2 cd = twist2 (m_corner_data S ! j)"
    by blast
  from Cons.prems(2) have d: "distinct js" and nj: "j \<notin> set js" by simp_all
  note IH = Cons.IH [OF 2 d]
  have same: "m_n S1 = m_n S" "m_ribbons S1 = m_ribbons S" "curves S1 = curves S"
    by (simp_all add: S1)
  have frame: "m_n S' = m_n S \<and> m_ribbons S' = m_ribbons S \<and> curves S' = curves S \<and>
     length (m_corner_data S') = length (m_corner_data S)"
    using IH by (simp add: S1)
  have untouched: "\<forall>k. k \<notin> set (j # js) \<longrightarrow> m_corner_data S' ! k = m_corner_data S ! k"
    using IH by (simp add: S1)
  have atj: "m_corner_data S' ! j = cd"
    using IH nj j by (simp add: S1)
  have rest: "\<forall>i\<in>set js. next_twist X S i = Some (twist1 (m_corner_data S' ! i)) \<and>
                  twist2 (m_corner_data S' ! i) = twist2 (m_corner_data S ! i)"
  proof
    fix i assume i: "i \<in> set js"
    with nj have "i \<noteq> j" by blast
    then have "m_corner_data S1 ! i = m_corner_data S ! i" by (simp add: S1)
    moreover have "next_twist X S1 i = next_twist X S i"
      using same by (rule next_twist_cong)
    ultimately show "next_twist X S i = Some (twist1 (m_corner_data S' ! i)) \<and>
                  twist2 (m_corner_data S' ! i) = twist2 (m_corner_data S ! i)"
      using IH i by simp
  qed
  from frame untouched atj tw rest show ?case by simp
qed

lemma update_domain_frame:
  "m_n (update_domain X S) = m_n S \<and> m_ribbons (update_domain X S) = m_ribbons S \<and>
   m_corner_data (update_domain X S) = m_corner_data S \<and> curves (update_domain X S) = curves S"
  by (simp add: update_domain_def split: prod.splits)

lemma update_ribbon_frame:
  "update_ribbon X S i = Some S' \<Longrightarrow>
     m_n S' = m_n S \<and> length (m_ribbons S') = length (m_ribbons S) \<and>
     m_corner_data S' = m_corner_data S \<and> curves S' = curves S"
  by (auto simp: update_ribbon_def split: Option.bind_splits)

lemma update_ribbons_frame:
  assumes "for_each (update_ribbon X) js S = Some S'"
  shows "m_n S' = m_n S \<and> length (m_ribbons S') = length (m_ribbons S) \<and>
     m_corner_data S' = m_corner_data S \<and> curves S' = curves S"
  by (rule for_each_preserves [where f = "update_ribbon X" and s = S and s' = S' and js = js
        and P = "\<lambda>T. m_n T = m_n S \<and> length (m_ribbons T) = length (m_ribbons S) \<and>
     m_corner_data T = m_corner_data S \<and> curves T = curves S"])
    (use assms update_ribbon_frame in \<open>auto dest: update_ribbon_frame\<close>)

lemma update_Some:
  assumes "update X S = Some S'"
  shows "\<exists>S1. for_each (update_ribbon X) [0..<length (m_ribbons S)] (update_domain X S) = Some S1 \<and>
     for_each (updateCorner X) [0..<m_n S]
       (S1\<lparr>m_corner_data := resize (m_corner_data S) (m_n S) (default_corner X)\<rparr>) = Some S'"
proof -
  from assms obtain S1 where
    1: "for_each (update_ribbon X) [0..<length (m_ribbons S)] (update_domain X S) = Some S1"
    and 2: "updateCorners X S1 = Some S'"
    by (auto simp: update_def split: Option.bind_splits)
  from update_ribbons_frame [OF 1] update_domain_frame [of X S]
  have "m_n S1 = m_n S" "m_corner_data S1 = m_corner_data S" by simp_all
  with 1 2 show ?thesis by (simp add: updateCorners_def)
qed

lemma length_resize: "length (resize xs k d) = k"
  by (simp add: resize_def)

lemma update_effect:
  assumes "update X S = Some S'"
  shows "m_n S' = m_n S \<and> length (m_ribbons S') = length (m_ribbons S) \<and>
         length (m_corner_data S') = m_n S \<and>
         (\<forall>i<m_n S. next_twist X S' i = Some (twist1 (m_corner_data S' ! i)) \<and>
            twist2 (m_corner_data S' ! i) =
              twist2 (resize (m_corner_data S) (m_n S) (default_corner X) ! i))"
proof -
  from update_Some [OF assms] obtain S1 where
    1: "for_each (update_ribbon X) [0..<length (m_ribbons S)] (update_domain X S) = Some S1"
    and 2: "for_each (updateCorner X) [0..<m_n S]
       (S1\<lparr>m_corner_data := resize (m_corner_data S) (m_n S) (default_corner X)\<rparr>) = Some S'"
    by blast
  let ?S2 = "S1\<lparr>m_corner_data := resize (m_corner_data S) (m_n S) (default_corner X)\<rparr>"
  from update_ribbons_frame [OF 1] update_domain_frame [of X S]
  have f1: "m_n S1 = m_n S" "length (m_ribbons S1) = length (m_ribbons S)" by simp_all
  note L = updateCorner_loop [OF 2 distinct_upt]
  have same: "m_n S' = m_n ?S2" "m_ribbons S' = m_ribbons ?S2" "curves S' = curves ?S2"
    using L by simp_all
  have "\<forall>i<m_n S. next_twist X S' i = Some (twist1 (m_corner_data S' ! i)) \<and>
            twist2 (m_corner_data S' ! i) =
              twist2 (resize (m_corner_data S) (m_n S) (default_corner X) ! i)"
  proof (intro allI impI)
    fix i assume "i < m_n S"
    then have "i \<in> set [0..<m_n S]" by simp
    with L have "next_twist X ?S2 i = Some (twist1 (m_corner_data S' ! i)) \<and>
                  twist2 (m_corner_data S' ! i) = twist2 (m_corner_data ?S2 ! i)"
      by blast
    moreover have "next_twist X S' i = next_twist X ?S2 i"
      using same by (rule next_twist_cong)
    ultimately show "next_twist X S' i = Some (twist1 (m_corner_data S' ! i)) \<and>
            twist2 (m_corner_data S' ! i) =
              twist2 (resize (m_corner_data S) (m_n S) (default_corner X) ! i)"
      by simp
  qed
  moreover have "m_n S' = m_n S" "length (m_ribbons S') = length (m_ribbons S)"
    "length (m_corner_data S') = m_n S"
    using L f1 by (simp_all add: length_resize)
  ultimately show ?thesis by blast
qed

lemma blendCorner_boundary_flag:
  "blendCorner_boundary X (S\<lparr>m_use_gamma := b\<rparr>) = blendCorner_boundary X S"
  by (intro ext) (simp add: blendCorner_boundary_def cong: if_cong)

lemma blendCorner_interior_flag:
  "blendCorner_interior (S\<lparr>m_use_gamma := b\<rparr>) = blendCorner_interior S"
  by (intro ext) (simp add: blendCorner_interior_def)


lemma update_unit_square:
  "update seg_ext (seg_surface unit_square 4) =
     Some ((seg_surface unit_square 4)\<lparr>m_corner_data := unit_square_corners\<rparr>)"
  by (simp add: update_def update_domain_def update_ribbon_def updateCorners_def updateCorner_def
     seg_surface_def setCurves_def Surface_def seg_ext_def unit_square_def upt_rec ribbon_at_def
     slot_def setCurve_r_def resize_def curve_of_def corner_at_def der_at_def next_idx_def
     seg_eval_def seg_ribbon_eval_def step_def unit_square_corners_def)

lemma updateCorner_own_twist:
  "updateCorner X S i = Some S' \<Longrightarrow> \<exists>t. own_twist X S i = Some t"
  by (auto simp: updateCorner_def own_twist_def Let_def split: if_splits Option.bind_splits)

lemma updateCorner_frame:
  assumes "updateCorner X S i = Some S'"
  shows "m_n S' = m_n S \<and> m_ribbons S' = m_ribbons S \<and> curves S' = curves S \<and>
         length (m_corner_data S') = length (m_corner_data S) \<and>
         (\<forall>j. j \<noteq> i \<longrightarrow> corner_at S' j = corner_at S j)"
  using updateCorner_Some [OF assms] by (auto simp: corner_at_def)

lemma updateCorner_stale_square:
  "updateCorner seg_ext stale_square 0 =
     Some (stale_square\<lparr>m_corner_data :=
        [\<lparr>point = (1, 0, 0), tangent1 = (- 1, 0, 0), tangent2 = (0, 1, 0),
          twist1 = (0, 1, 0), twist2 = (7, 7, 7)\<rparr>,
         stale_corner, stale_corner, stale_corner, stale_corner]\<rparr>)"
  by (simp add: updateCorner_def stale_square_def stale_corner_def
     seg_surface_def setCurves_def Surface_def seg_ext_def unit_square_def upt_rec ribbon_at_def
     slot_def setCurve_r_def curve_of_def corner_at_def der_at_def next_idx_def
     seg_eval_def seg_ribbon_eval_def step_def)

lemma update_i_stale_square:
  "update_i seg_ext stale_square 1 =
     Some (stale_square\<lparr>m_corner_data :=
        [\<lparr>point = (1, 0, 0), tangent1 = (- 1, 0, 0), tangent2 = (0, 1, 0),
          twist1 = (0, 1, 0), twist2 = (7, 7, 7)\<rparr>,
         \<lparr>point = (1, 1, 0), tangent1 = (0, - 1, 0), tangent2 = (- 1, 0, 0),
          twist1 = (- 1, 0, 0), twist2 = (7, 7, 7)\<rparr>,
         stale_corner, stale_corner, stale_corner]\<rparr>)"
  by (simp add: update_i_def update_domain_def update_ribbon_def updateCorner_def
     stale_square_def stale_corner_def prev_idx_def
     seg_surface_def setCurves_def Surface_def seg_ext_def unit_square_def upt_rec ribbon_at_def
     slot_def setCurve_r_def curve_of_def corner_at_def der_at_def next_idx_def
     seg_eval_def seg_ribbon_eval_def step_def)

lemma update_stale_square:
  "update seg_ext stale_square =
     Some (stale_square\<lparr>m_corner_data :=
        [\<lparr>point = (1, 0, 0), tangent1 = (- 1, 0, 0), tangent2 = (0, 1, 0),
          twist1 = (0, 1, 0), twist2 = (7, 7, 7)\<rparr>,
         \<lparr>point = (1, 1, 0), tangent1 = (0, - 1, 0), tangent2 = (- 1, 0, 0),
          twist1 = (- 1, 0, 0), twist2 = (7, 7, 7)\<rparr>,
         \<lparr>point = (0, 1, 0), tangent1 = (1, 0, 0), tangent2 = (0, - 1, 0),
          twist1 = (0, - 1, 0), twist2 = (7, 7, 7)\<rparr>,
         \<lparr>point = (0, 0, 0), tangent1 = (0, 1, 0), tangent2 = (1, 0, 0),
          twist1 = (1, 0, 0), twist2 = (7, 7, 7)\<rparr>]\<rparr>)"
  by (simp add: update_def update_domain_def update_ribbon_def updateCorners_def updateCorner_def
     stale_square_def stale_corner_def resize_def
     seg_surface_def setCurves_def Surface_def seg_ext_def unit_square_def upt_rec ribbon_at_def
     slot_def setCurve_r_def curve_of_def corner_at_def der_at_def next_idx_def
     seg_eval_def seg_ribbon_eval_def step_def)

section \<open>The rounds of \<^verbatim>\<open>setupLoop\<close>\<close>

lemma for_each_append:
  "for_each f (xs @ ys) s = (case for_each f xs s of None \<Rightarrow> None | Some s' \<Rightarrow> for_each f ys s')"
  by (induction xs arbitrary: s) (simp_all split: option.splits)

lemma upt_split: "i < n \<Longrightarrow> [0..<n] = [0..<i] @ i # [Suc i..<n]"
proof -
  assume i: "i < n"
  then have "[0..<n] = [0..<i + (n - i)]" by simp
  also have "\<dots> = [0..<i] @ [i..<i + (n - i)]" by (rule upt_add_eq_append) simp
  also have "[i..<i + (n - i)] = i # [Suc i..<n]" using i by (simp add: upt_conv_Cons)
  finally show ?thesis .
qed

lemma vsub_self: "vsub a a = (0, 0, 0)"
  by (cases a) simp

lemma norm3_nonneg: "0 \<le> norm3 a"
  by (cases a) simp

lemma norm3_zero: "norm3 (0, 0, 0) = 0"
  by simp

lemma curve_at_cong:
  assumes "curves T = curves S"
    and "map (map_option r_curve) (m_ribbons T) = map (map_option r_curve) (m_ribbons S)"
  shows "curve_at T i = curve_at S i"
proof -
  from assms(2) have len: "length (m_ribbons T) = length (m_ribbons S)"
    by (rule map_eq_imp_length_eq)
  show ?thesis
  proof (cases "i < length (m_ribbons S)")
    case False
    with len show ?thesis by (simp add: curve_at_def ribbon_at_def slot_def)
  next
    case True
    with assms(2) len have "map_option r_curve (m_ribbons T ! i) = map_option r_curve (m_ribbons S ! i)"
      by (metis nth_map)
    with True len assms(1) show ?thesis
      by (auto simp: curve_at_def ribbon_at_def slot_def curve_of_def split: option.splits)
  qed
qed

lemma setNeighbors_curves:
  assumes "ribbon_at S i = Some r"
  shows "map (map_option r_curve) ((m_ribbons S)[i := Some (setNeighbors r p q)])
           = map (map_option r_curve) (m_ribbons S)"
proof -
  from assms have i: "i < length (m_ribbons S)" and r: "m_ribbons S ! i = Some r"
    by (auto simp: ribbon_at_def slot_def split: if_splits)
  have "map_option r_curve (Some (setNeighbors r p q)) = map (map_option r_curve) (m_ribbons S) ! i"
    using i r by (simp add: setNeighbors_def)
  then show ?thesis
    by (simp add: map_update list_update_same_conv i)
qed

text \<open>What one round of the second loop does.\<close>

lemma setupLoop_step_Some:
  assumes "setupLoop_step X (S, revs) i = Some (S', revs')"
  shows "\<exists>r rp rn c co.
           handle S (prev_idx (m_n S) i) = Some rp \<and> handle S (next_idx (m_n S) i) = Some rn \<and>
           ribbon_at S i = Some r \<and> curve_at S i = Some c \<and>
           curve_at S (if i = 0 then next_idx (m_n S) i else prev_idx (m_n S) i) = Some co \<and>
           (if (if i = 0 then reverse_first X c co else reverse_later X c co)
            then reverse_curve X (S\<lparr>m_ribbons := (m_ribbons S)[i := Some (setNeighbors r rp rn)]\<rparr>) i
                   = Some S' \<and> revs' = revs @ [i]
            else S' = S\<lparr>m_ribbons := (m_ribbons S)[i := Some (setNeighbors r rp rn)]\<rparr> \<and>
                 revs' = revs)"
proof -
  from assms obtain rp rn r where
    h: "handle S (prev_idx (m_n S) i) = Some rp" "handle S (next_idx (m_n S) i) = Some rn"
      "ribbon_at S i = Some r"
    by (auto simp: setupLoop_step_def Let_def split: Option.bind_splits)
  let ?S1 = "S\<lparr>m_ribbons := (m_ribbons S)[i := Some (setNeighbors r rp rn)]\<rparr>"
  have same: "\<And>j. curve_at ?S1 j = curve_at S j"
    by (rule curve_at_cong) (simp_all add: setNeighbors_curves [OF h(3)])
  from assms h obtain c co where
    c: "curve_at ?S1 i = Some c"
      "curve_at ?S1 (if i = 0 then next_idx (m_n S) i else prev_idx (m_n S) i) = Some co"
    by (auto simp: setupLoop_step_def Let_def split: Option.bind_splits if_splits)
  from assms h c have
    "if (if i = 0 then reverse_first X c co else reverse_later X c co)
     then reverse_curve X ?S1 i = Some S' \<and> revs' = revs @ [i]
     else S' = ?S1 \<and> revs' = revs"
    by (auto simp: setupLoop_step_def Let_def split: Option.bind_splits if_splits)
  with h c show ?thesis unfolding same by blast
qed

lemma reverse_curve_Some:
  assumes "reverse_curve X S i = Some S'"
  shows "\<exists>r a c. ribbon_at S i = Some r \<and> r_curve r = Some a \<and> curves S a = Some c \<and>
           S' = S\<lparr>curves := (curves S)(a \<mapsto> c_normalize X (c_reverse X c))\<rparr>"
  using assms by (auto simp: reverse_curve_def split: Option.bind_splits)

lemma normalize_curve_Some:
  assumes "normalize_curve X S i = Some S'"
  shows "\<exists>r a c. ribbon_at S i = Some r \<and> r_curve r = Some a \<and> curves S a = Some c \<and>
           S' = S\<lparr>curves := (curves S)(a \<mapsto> c_normalize X c)\<rparr>"
  using assms by (auto simp: normalize_curve_def split: Option.bind_splits)

lemma setupLoop_step_frame:
  assumes "setupLoop_step X (S, revs) i = Some (S', revs')"
  shows "m_n S' = m_n S \<and> length (m_ribbons S') = length (m_ribbons S) \<and>
         m_corner_data S' = m_corner_data S \<and>
         map (map_option r_curve) (m_ribbons S') = map (map_option r_curve) (m_ribbons S) \<and>
         set revs \<subseteq> set revs' \<and> set revs' \<subseteq> insert i (set revs)"
proof -
  from setupLoop_step_Some [OF assms] obtain r rp rn c co where
    r: "ribbon_at S i = Some r"
    and e: "if (if i = 0 then reverse_first X c co else reverse_later X c co)
            then reverse_curve X (S\<lparr>m_ribbons := (m_ribbons S)[i := Some (setNeighbors r rp rn)]\<rparr>) i
                   = Some S' \<and> revs' = revs @ [i]
            else S' = S\<lparr>m_ribbons := (m_ribbons S)[i := Some (setNeighbors r rp rn)]\<rparr> \<and>
                 revs' = revs"
    by blast
  let ?S1 = "S\<lparr>m_ribbons := (m_ribbons S)[i := Some (setNeighbors r rp rn)]\<rparr>"
  note k = setNeighbors_curves [OF r, of rp rn]
  show ?thesis
  proof (cases "if i = 0 then reverse_first X c co else reverse_later X c co")
    case True
    with e have "reverse_curve X ?S1 i = Some S'" and rv: "revs' = revs @ [i]" by simp_all
    from reverse_curve_Some [OF this(1)] obtain a c' where
      "S' = ?S1\<lparr>curves := (curves ?S1)(a \<mapsto> c_normalize X (c_reverse X c'))\<rparr>" by blast
    then show ?thesis using k rv by auto
  next
    case False
    with e have "S' = ?S1" "revs' = revs" by simp_all
    then show ?thesis using k by auto
  qed
qed


lemma setupLoop_steps_frame:
  "for_each (setupLoop_step X) js (S, revs) = Some (S', revs') \<Longrightarrow>
     m_n S' = m_n S \<and> length (m_ribbons S') = length (m_ribbons S) \<and>
     m_corner_data S' = m_corner_data S \<and>
     map (map_option r_curve) (m_ribbons S') = map (map_option r_curve) (m_ribbons S) \<and>
     set revs \<subseteq> set revs' \<and> set revs' \<subseteq> set js \<union> set revs"
proof (induction js arbitrary: S revs)
  case Nil
  then show ?case by simp
next
  case (Cons j js)
  from Cons.prems obtain S1 revs1 where 1: "setupLoop_step X (S, revs) j = Some (S1, revs1)"
    and 2: "for_each (setupLoop_step X) js (S1, revs1) = Some (S', revs')"
    by (auto split: option.splits)
  from setupLoop_step_frame [OF 1] Cons.IH [OF 2] show ?case
    by auto
qed

lemma normalize_all_frame:
  assumes "for_each (normalize_curve X) js S = Some S'"
  shows "m_n S' = m_n S \<and> m_ribbons S' = m_ribbons S \<and> m_corner_data S' = m_corner_data S"
  by (rule for_each_preserves [where f = "normalize_curve X" and s = S and s' = S' and js = js
        and P = "\<lambda>T. m_n T = m_n S \<and> m_ribbons T = m_ribbons S \<and>
                     m_corner_data T = m_corner_data S"])
    (use assms in \<open>auto dest!: normalize_curve_Some\<close>)

lemma setupLoop_frame:
  assumes "setupLoop X S = Some (S', revs)"
  shows "m_n S' = m_n S \<and> length (m_ribbons S') = length (m_ribbons S) \<and>
         m_corner_data S' = m_corner_data S"
proof -
  from assms obtain S1 where 1: "normalize_all X S = Some S1"
    and 2: "for_each (setupLoop_step X) [0..<m_n S] (S1, []) = Some (S', revs)"
    by (auto simp: setupLoop_def split: Option.bind_splits)
  from normalize_all_frame [OF 1 [unfolded normalize_all_def]] setupLoop_steps_frame [OF 2]
  show ?thesis by simp
qed

lemma reverse_curve_curve_at:
  assumes "reverse_curve X S i = Some S'" "curve_at S i = Some c"
  shows "curve_at S' i = Some (c_normalize X (c_reverse X c))"
  using assms
  by (auto simp: reverse_curve_def curve_at_def curve_of_def ribbon_at_def slot_def
      split: Option.bind_splits option.splits if_splits)

section \<open>\<^verbatim>\<open>setupLoop\<close> on a closed loop\<close>

lemma curve_at_SomeD:
  assumes "curve_at S j = Some c"
  shows "j < length (m_ribbons S) \<and> (\<exists>r. ribbon_at S j = Some r \<and> curve_of S r = Some c)"
  using assms by (auto simp: curve_at_def ribbon_at_def slot_def split: option.splits if_splits)

lemma handle_in_range: "j < length (m_ribbons S) \<Longrightarrow> \<exists>h. handle S j = Some h"
  by (simp add: handle_def slot_def)

lemma closed_loopD:
  assumes "closed_loop X S" "i < m_n S"
  shows "\<exists>c cn. curve_at S i = Some c \<and> curve_at S (next_idx (m_n S) i) = Some cn \<and>
           c_eval X c 1 = c_eval X cn 0"
proof -
  from assms have "case curve_at S i of None \<Rightarrow> False
      | Some c \<Rightarrow> (case curve_at S (next_idx (m_n S) i) of None \<Rightarrow> False
                   | Some cn \<Rightarrow> c_eval X c 1 = c_eval X cn 0)"
    by (simp add: closed_loop_def)
  then show ?thesis
    by (cases "curve_at S i"; cases "curve_at S (next_idx (m_n S) i)") simp_all
qed

lemma closed_loop_cong:
  assumes "closed_loop X S" "m_n T = m_n S" "curves T = curves S"
    "map (map_option r_curve) (m_ribbons T) = map (map_option r_curve) (m_ribbons S)"
  shows "closed_loop X T"
proof -
  have "\<And>j. curve_at T j = curve_at S j"
    using assms(3,4) by (rule curve_at_cong)
  with assms(1,2) show ?thesis by (simp add: closed_loop_def cong: option.case_cong)
qed

lemma reverse_first_closed: "c_eval X c 1 = c_eval X cn 0 \<Longrightarrow> \<not> reverse_first X c cn"
proof -
  assume e: "c_eval X c 1 = c_eval X cn 0"
  have "0 \<le> min (norm3 (vsub (c_eval X c 0) (c_eval X cn 0)))
                 (norm3 (vsub (c_eval X c 0) (c_eval X cn 1)))"
    by (simp add: norm3_nonneg)
  moreover have "min (norm3 (vsub (c_eval X c 1) (c_eval X cn 0)))
                     (norm3 (vsub (c_eval X c 1) (c_eval X cn 1))) \<le> 0"
    unfolding e vsub_self norm3_zero by simp
  ultimately have "\<not> min (norm3 (vsub (c_eval X c 0) (c_eval X cn 0)))
                 (norm3 (vsub (c_eval X c 0) (c_eval X cn 1)))
             < min (norm3 (vsub (c_eval X c 1) (c_eval X cn 0)))
                     (norm3 (vsub (c_eval X c 1) (c_eval X cn 1)))"
    by linarith
  then show ?thesis
    unfolding reverse_first_def Let_def .
qed

lemma reverse_later_closed: "c_eval X cp 1 = c_eval X c 0 \<Longrightarrow> \<not> reverse_later X c cp"
proof -
  assume e: "c_eval X cp 1 = c_eval X c 0"
  have "norm3 (vsub (c_eval X c 0) (c_eval X cp 1)) = 0"
    unfolding e vsub_self by simp
  moreover have "0 \<le> norm3 (vsub (c_eval X c 1) (c_eval X cp 1))"
    by (rule norm3_nonneg)
  ultimately have "\<not> norm3 (vsub (c_eval X c 1) (c_eval X cp 1))
             < norm3 (vsub (c_eval X c 0) (c_eval X cp 1))"
    by linarith
  then show ?thesis
    unfolding reverse_later_def Let_def .
qed

lemma closed_loop_step:
  assumes cl: "closed_loop X T" and i: "i < m_n T"
  shows "\<exists>T'. setupLoop_step X (T, revs) i = Some (T', revs) \<and> m_n T' = m_n T \<and>
           curves T' = curves T \<and>
           map (map_option r_curve) (m_ribbons T') = map (map_option r_curve) (m_ribbons T)"
proof -
  let ?n = "m_n T"
  have pn: "prev_idx ?n i < ?n" and nn: "next_idx ?n i < ?n"
    using i by (simp_all add: prev_idx_less next_idx_less)
  from closed_loopD [OF cl i] obtain c cn where
    c: "curve_at T i = Some c" and cn: "curve_at T (next_idx ?n i) = Some cn"
    and e: "c_eval X c 1 = c_eval X cn 0"
    by blast
  from closed_loopD [OF cl pn] obtain cp where
    cp: "curve_at T (prev_idx ?n i) = Some cp" and ep: "c_eval X cp 1 = c_eval X c 0"
    using c i by (auto simp: next_prev_idx)
  from curve_at_SomeD [OF c] obtain r where r: "ribbon_at T i = Some r" by blast
  from curve_at_SomeD [OF cp] handle_in_range obtain rp where
    rp: "handle T (prev_idx ?n i) = Some rp" by blast
  from curve_at_SomeD [OF cn] handle_in_range obtain rn where
    rn: "handle T (next_idx ?n i) = Some rn" by blast
  let ?T1 = "T\<lparr>m_ribbons := (m_ribbons T)[i := Some (setNeighbors r rp rn)]\<rparr>"
  have same: "\<And>j. curve_at ?T1 j = curve_at T j"
    by (rule curve_at_cong) (simp_all add: setNeighbors_curves [OF r])
  have c1: "curve_at ?T1 i = Some c" and cn1: "curve_at ?T1 (next_idx ?n i) = Some cn"
    and cp1: "curve_at ?T1 (prev_idx ?n i) = Some cp"
    using c cn cp by (simp_all add: same)
  have "setupLoop_step X (T, revs) i = Some (?T1, revs)"
  proof (cases "i = 0")
    case True
    then show ?thesis
      using rp rn r c1 cn1 reverse_first_closed [OF e]
      by (simp add: setupLoop_step_def Let_def)
  next
    case False
    then show ?thesis
      using rp rn r c1 cp1 reverse_later_closed [OF ep]
      by (simp add: setupLoop_step_def Let_def)
  qed
  then show ?thesis
    using setNeighbors_curves [OF r, of rp rn] by simp
qed

lemma closed_loop_rounds:
  assumes "closed_loop X T" "set js \<subseteq> {0..<m_n T}"
  shows "\<exists>T'. for_each (setupLoop_step X) js (T, revs) = Some (T', revs) \<and> m_n T' = m_n T \<and>
           curves T' = curves T \<and>
           map (map_option r_curve) (m_ribbons T') = map (map_option r_curve) (m_ribbons T)"
  using assms
proof (induction js arbitrary: T)
  case Nil
  then show ?case by simp
next
  case (Cons j js)
  from Cons.prems have j: "j < m_n T" by simp
  from closed_loop_step [OF Cons.prems(1) j, of revs] obtain T1 where
    1: "setupLoop_step X (T, revs) j = Some (T1, revs)" and n: "m_n T1 = m_n T"
    and cu: "curves T1 = curves T"
    and rb: "map (map_option r_curve) (m_ribbons T1) = map (map_option r_curve) (m_ribbons T)"
    by blast
  have cl: "closed_loop X T1"
    using Cons.prems(1) n cu rb by (rule closed_loop_cong)
  have "set js \<subseteq> {0..<m_n T1}"
    using Cons.prems(2) n by simp
  from Cons.IH [OF cl this] obtain T' where
    "for_each (setupLoop_step X) js (T1, revs) = Some (T', revs)" "m_n T' = m_n T1"
    "curves T' = curves T1"
    "map (map_option r_curve) (m_ribbons T') = map (map_option r_curve) (m_ribbons T1)"
    by blast
  with 1 n cu rb show ?case by simp
qed

lemma normalized_atI: "curve_at S i = Some c \<Longrightarrow> c_normalize X c = c \<Longrightarrow> normalized_at X S i"
  by (simp add: normalized_at_def)

lemma normalized_atD: "normalized_at X S i \<Longrightarrow> \<exists>c. curve_at S i = Some c \<and> c_normalize X c = c"
  by (cases "curve_at S i") (simp_all add: normalized_at_def)

lemma normalize_curve_self:
  assumes "normalize_curve X S j = Some S'"
  shows "\<exists>c. curve_at S' j = Some (c_normalize X c)"
  using assms
  by (auto simp: normalize_curve_def curve_at_def curve_of_def ribbon_at_def slot_def
      split: Option.bind_splits option.splits if_splits)

lemma normalize_curve_other:
  assumes "normalize_curve X S j = Some S'" "curve_at S i = Some c"
  shows "curve_at S' i = Some c \<or> (\<exists>d. curve_at S' i = Some (c_normalize X d))"
  using assms
  by (auto simp: normalize_curve_def curve_at_def curve_of_def ribbon_at_def slot_def
      split: Option.bind_splits option.splits if_splits)

lemma normalize_loop_normalized:
  assumes idem: "\<And>c. c_normalize X (c_normalize X c) = c_normalize X c"
  shows "for_each (normalize_curve X) js S = Some S' \<Longrightarrow>
         (\<And>i. i \<in> P \<Longrightarrow> normalized_at X S i) \<Longrightarrow>
         i \<in> P \<union> set js \<Longrightarrow> normalized_at X S' i"
proof (induction js arbitrary: S P)
  case Nil
  then show ?case by simp
next
  case (Cons j js)
  from Cons.prems(1) obtain S1 where 1: "normalize_curve X S j = Some S1"
    and 2: "for_each (normalize_curve X) js S1 = Some S'"
    by (auto split: option.splits)
  have step: "\<And>k. k \<in> insert j P \<Longrightarrow> normalized_at X S1 k"
  proof -
    fix k assume k: "k \<in> insert j P"
    show "normalized_at X S1 k"
    proof (cases "k = j")
      case True
      from normalize_curve_self [OF 1] obtain c where "curve_at S1 j = Some (c_normalize X c)"
        by blast
      with True show ?thesis by (simp add: normalized_at_def idem)
    next
      case False
      with k have "normalized_at X S k" using Cons.prems(2) by blast
      then obtain c where c: "curve_at S k = Some c" "c_normalize X c = c"
        using normalized_atD by blast
      from normalize_curve_other [OF 1 c(1)] c(2) show ?thesis
        by (auto simp: normalized_at_def idem)
    qed
  qed
  have "i \<in> insert j P \<union> set js" using Cons.prems(3) by auto
  from Cons.IH [OF 2 step this] show ?case by simp
qed

lemma normalize_curve_fixed:
  assumes "normalized_at X S j"
  shows "normalize_curve X S j = Some S"
proof -
  from normalized_atD [OF assms] obtain c where c: "curve_at S j = Some c" "c_normalize X c = c"
    by blast
  from c(1) obtain r a where r: "ribbon_at S j = Some r" "r_curve r = Some a" "curves S a = Some c"
    by (auto simp: curve_at_def curve_of_def split: option.splits)
  then have "(curves S)(a \<mapsto> c_normalize X c) = curves S"
    using c(2) by (simp add: fun_upd_idem)
  with r show ?thesis
    by (simp add: normalize_curve_def)
qed

lemma normalize_loop_fixed:
  assumes "\<And>i. i \<in> set js \<Longrightarrow> normalized_at X S i"
  shows "for_each (normalize_curve X) js S = Some S"
  using assms by (induction js) (simp_all add: normalize_curve_fixed)

lemma normalized_at_cong:
  assumes "normalized_at X S i" "curves T = curves S"
    "map (map_option r_curve) (m_ribbons T) = map (map_option r_curve) (m_ribbons S)"
  shows "normalized_at X T i"
  using assms(1) curve_at_cong [OF assms(2,3), of i] by (simp add: normalized_at_def)

lemma setupLoop_flipped_square:
  "\<exists>S'. setupLoop seg_ext (seg_surface flipped_square 4) = Some (S', [1])"
  by (simp add: setupLoop_def normalize_all_def seg_surface_def setCurves_def Surface_def
      seg_ext_def flipped_square_def normalize_curve_def ribbon_at_def slot_def setCurve_r_def
      upt_rec setupLoop_step_def handle_def next_idx_def prev_idx_def setNeighbors_def
      curve_at_def curve_of_def reverse_first_def reverse_later_def seg_eval_def
      reverse_curve_def)

lemma curve_at_unit_square:
  "curve_at (seg_surface unit_square 4) 0 = Some ((0, 0, 0), (1, 0, 0))"
  "curve_at (seg_surface unit_square 4) 1 = Some ((1, 0, 0), (1, 1, 0))"
  "curve_at (seg_surface unit_square 4) 2 = Some ((1, 1, 0), (0, 1, 0))"
  "curve_at (seg_surface unit_square 4) 3 = Some ((0, 1, 0), (0, 0, 0))"
  by (simp_all add: seg_surface_def setCurves_def Surface_def curve_at_def
      curve_of_def ribbon_at_def slot_def setCurve_r_def seg_ext_def unit_square_def upt_rec)

lemma closed_loop_unit_square: "closed_loop seg_ext (seg_surface unit_square 4)"
proof -
  have n: "m_n (seg_surface unit_square 4) = 4"
    by (simp add: seg_surface_def setCurves_def)
  have nx: "next_idx 4 0 = 1" "next_idx 4 1 = 2" "next_idx 4 2 = 3" "next_idx 4 3 = 0"
    by (simp_all add: next_idx_def)
  have ev: "c_eval seg_ext = seg_eval"
    by (simp add: seg_ext_def)
  show ?thesis
    unfolding closed_loop_def n ev
  proof (intro allI impI)
    fix i :: nat
    assume "i < 4"
    then consider "i = 0" | "i = 1" | "i = 2" | "i = 3"
      by linarith
    then show "case curve_at (seg_surface unit_square 4) i of None \<Rightarrow> False
        | Some c \<Rightarrow> (case curve_at (seg_surface unit_square 4) (next_idx 4 i) of
                       None \<Rightarrow> False | Some cn \<Rightarrow> seg_eval c 1 = seg_eval cn 0)"
    proof cases
      case 1
      then show ?thesis using nx curve_at_unit_square by (simp add: seg_eval_def)
    next
      case 2
      then show ?thesis using nx curve_at_unit_square by (simp add: seg_eval_def)
    next
      case 3
      then show ?thesis using nx curve_at_unit_square by (simp add: seg_eval_def)
    next
      case 4
      then show ?thesis using nx curve_at_unit_square by (simp add: seg_eval_def)
    qed
  qed
qed

lemma normalize_all_unit_square:
  "normalize_all seg_ext (seg_surface unit_square 4) = Some (seg_surface unit_square 4)"
  unfolding normalize_all_def
proof (rule normalize_loop_fixed)
  fix i assume "i \<in> set [0..<m_n (seg_surface unit_square 4)]"
  then have i: "i < m_n (seg_surface unit_square 4)" by simp
  from closed_loopD [OF closed_loop_unit_square i] obtain c where
    "curve_at (seg_surface unit_square 4) i = Some c" by blast
  moreover have "c_normalize seg_ext c = c" by (simp add: seg_ext_def)
  ultimately show "normalized_at seg_ext (seg_surface unit_square 4) i"
    by (rule normalized_atI)
qed

section \<open>Sizes of the sequences\<close>

lemma setCurve_grows:
  assumes "m_n S \<le> i" "i + 1 < size_range"
  shows "\<exists>S'. setCurve X S i c = Some S' \<and> length (m_ribbons S') = i + 1 \<and> m_n S' = i + 1"
  using assms by (simp add: setCurve_def Let_def length_resize)

lemma setCurve_sizes:
  assumes "setCurve X S i c = Some S'" "length (m_ribbons S) = m_n S"
  shows "length (m_ribbons S') = m_n S'"
proof (cases "m_n S \<le> i")
  case True
  with assms(1) show ?thesis
    by (auto simp: setCurve_def Let_def length_resize split: if_splits)
next
  case False
  with assms show ?thesis by (auto simp: setCurve_def Let_def split: if_splits)
qed

lemma update_i_sizes:
  assumes "update_i X S i = Some S'"
  shows "m_n S' = m_n S \<and> length (m_ribbons S') = length (m_ribbons S)"
proof -
  from assms obtain S1 S2 where 1: "update_ribbon X (update_domain X S) i = Some S1"
    and 2: "updateCorner X S1 (prev_idx (m_n S1) i) = Some S2"
    and 3: "updateCorner X S2 i = Some S'"
    by (auto simp: update_i_def split: Option.bind_splits)
  from update_ribbon_frame [OF 1] update_domain_frame [of X S]
    updateCorner_frame [OF 2] updateCorner_frame [OF 3]
  show ?thesis by simp
qed

lemma reachable_ribbons: "reachable X S \<Longrightarrow> length (m_ribbons S) = m_n S"
proof (induction rule: reachable.induct)
  case (r_init d0 p0 h)
  then show ?case by (simp add: Surface_def)
next
  case (r_setGamma S b)
  then show ?case by (simp add: setGamma_def)
next
  case (r_setCurve S i c S')
  then show ?case using setCurve_sizes by blast
next
  case (r_setCurves S cs)
  then show ?case by (simp add: setCurves_def)
next
  case (r_setupLoop S S' revs)
  then show ?case using setupLoop_frame [of X S S' revs] by simp
next
  case (r_update_i S i S')
  then show ?case using update_i_sizes [of X S i S'] by simp
next
  case (r_update S S')
  then show ?case using update_effect [of X S S'] by simp
next
  case (r_eval S resolution mesh)
  then show ?case by simp
next
  case (r_caller S h)
  then show ?case by simp
qed

lemma later_calls_sizes: "later_calls X S T \<Longrightarrow> size_invariant S \<Longrightarrow> size_invariant T"
proof (induction rule: later_calls.induct)
  case l_none
  then show ?case by simp
next
  case (l_setupLoop T T' revs)
  then show ?case using setupLoop_frame [of X T T' revs] by (simp add: size_invariant_def)
next
  case (l_update T T')
  then show ?case using update_effect [of X T T'] by (simp add: size_invariant_def)
next
  case (l_eval T resolution mesh)
  then show ?case by simp
qed

lemma reachable_unit_square: "reachable seg_ext (seg_surface unit_square 4)"
  unfolding seg_surface_def by (rule r_setCurves [OF r_init])

lemma update_updated_square:
  "update seg_ext ((seg_surface unit_square 4)\<lparr>m_corner_data := unit_square_corners\<rparr>) =
     Some ((seg_surface unit_square 4)\<lparr>m_corner_data := unit_square_corners\<rparr>)"
  by (simp add: update_def update_domain_def update_ribbon_def updateCorners_def updateCorner_def
     seg_surface_def setCurves_def Surface_def seg_ext_def unit_square_def upt_rec ribbon_at_def
     slot_def setCurve_r_def resize_def curve_of_def corner_at_def der_at_def next_idx_def
     seg_eval_def seg_ribbon_eval_def step_def unit_square_corners_def)

lemma setupLoop_updated_square:
  "\<exists>S'. setupLoop seg_ext ((seg_surface unit_square 4)\<lparr>m_corner_data := unit_square_corners\<rparr>)
          = Some (S', [])"
proof -
  let ?S = "seg_surface unit_square 4"
  let ?U = "?S\<lparr>m_corner_data := unit_square_corners\<rparr>"
  have cl: "closed_loop seg_ext ?U"
    using closed_loop_unit_square by (rule closed_loop_cong) simp_all
  have "\<And>i. i \<in> set [0..<m_n ?U] \<Longrightarrow> normalized_at seg_ext ?U i"
  proof -
    fix i assume "i \<in> set [0..<m_n ?U]"
    then have i: "i < m_n ?U" by simp
    from closed_loopD [OF cl i] obtain c where "curve_at ?U i = Some c" by blast
    moreover have "c_normalize seg_ext c = c" by (simp add: seg_ext_def)
    ultimately show "normalized_at seg_ext ?U i" by (rule normalized_atI)
  qed
  then have norm: "normalize_all seg_ext ?U = Some ?U"
    unfolding normalize_all_def by (rule normalize_loop_fixed)
  from closed_loop_rounds [OF cl, of "[0..<m_n ?U]" "[]"] obtain S' where
    "for_each (setupLoop_step seg_ext) [0..<m_n ?U] (?U, []) = Some (S', [])"
    by auto
  with norm have "setupLoop seg_ext ?U = Some (S', [])"
    by (simp add: setupLoop_def)
  then show ?thesis by blast
qed

section \<open>The gamma remap\<close>

lemma gamma_quotient_mono:
  fixes a b :: real
  assumes "0 \<le> a" "a \<le> b"
  shows "a / (2 * a + 1) \<le> b / (2 * b + 1)"
proof -
  have "a * (2 * b + 1) \<le> b * (2 * a + 1)"
    using assms by (simp add: algebra_simps)
  moreover have "0 < 2 * a + 1" "0 < 2 * b + 1"
    using assms by auto
  ultimately show ?thesis
    by (simp add: frac_le_eq divide_le_cancel field_simps)
qed

lemma gamma_quotient_range:
  fixes d :: real
  assumes d: "dbl_min \<le> d"
  shows "dbl_underflow < d / (2 * d + 1)" and "d / (2 * d + 1) < d"
proof -
  note u = dbl_underflow_bounds
  have m: "2 * dbl_underflow \<le> d" using d by (simp add: dbl_min_underflow)
  then have pos: "0 < d" using u by simp
  have "dbl_min / (2 * dbl_min + 1) \<le> d / (2 * d + 1)"
    by (rule gamma_quotient_mono) (use d u in \<open>simp_all add: dbl_min_underflow\<close>)
  moreover have "dbl_underflow < dbl_min / (2 * dbl_min + 1)"
    using u by (simp add: dbl_min_underflow field_simps)
  ultimately show "dbl_underflow < d / (2 * d + 1)" by simp
  show "d / (2 * d + 1) < d" using pos by (simp add: field_simps)
qed

lemma gamma_in_range:
  assumes g: "m_use_gamma S" and d: "dbl_min \<le> d" and h: "2 * d + 1 < dbl_overflow"
  shows "gamma S (Fin d) = Fin (d / (2 * d + 1))"
proof -
  note u = dbl_underflow_bounds
  have pos: "0 < d" using d u by (simp add: dbl_min_underflow)
  have "dbl_underflow < \<bar>2 * d\<bar>" "\<bar>2 * d\<bar> < dbl_overflow"
    using d h u by (simp_all add: dbl_min_underflow)
  then have 1: "to_double (2 * d) = Fin (2 * d)" by (rule to_double_Fin)
  have "dbl_underflow < \<bar>2 * d + 1\<bar>" "\<bar>2 * d + 1\<bar> < dbl_overflow"
    using pos h u by simp_all
  then have 2: "to_double (2 * d + 1) = Fin (2 * d + 1)" by (rule to_double_Fin)
  have q: "0 < d / (2 * d + 1)" using pos by simp
  have "dbl_underflow < \<bar>d / (2 * d + 1)\<bar>" "\<bar>d / (2 * d + 1)\<bar> < dbl_overflow"
    using gamma_quotient_range [OF d] q h pos by simp_all
  then have 3: "to_double (d / (2 * d + 1)) = Fin (d / (2 * d + 1))" by (rule to_double_Fin)
  have "2 * d + 1 \<noteq> 0" using pos by simp
  then show ?thesis using g by (simp add: gamma_def 1 2 3)
qed

lemma gamma_overflow:
  assumes g: "m_use_gamma S" and h: "dbl_overflow \<le> 2 * d"
  shows "gamma S (Fin d) = Fin 0"
  using g h by (simp add: gamma_def to_double_def)

lemma gamma_at_pole: "m_use_gamma S \<Longrightarrow> gamma S (Fin (- 1 / 2)) = NInf"
  using dbl_underflow_bounds dbl_overflow_bound
  by (simp add: gamma_def to_double_def)

lemma gamma_zero: "gamma S (Fin 0) = Fin 0"
  using dbl_underflow_bounds dbl_overflow_bound
  by (simp add: gamma_def to_double_def)

lemma clamp_Fin: "dmin (dmax (Fin s) (Fin 0)) (Fin 1) = Fin (min (max s 0) 1)"
  by (simp add: dmin_def dmax_def min_def max_def)

lemma gamma_clamped:
  assumes "s \<le> 0 \<or> dbl_min \<le> s"
  shows "gamma S (Fin (min (max s 0) 1)) = Fin (gamma_exact S (min (max s 0) 1))"
proof (cases "m_use_gamma S")
  case False
  then show ?thesis by (simp add: gamma_def gamma_exact_def)
next
  case True
  let ?c = "min (max s 0) 1"
  have m: "dbl_min \<le> 1" using dbl_underflow_bounds by (simp add: dbl_min_underflow)
  have p: "0 < dbl_min" using dbl_underflow_bounds by (simp add: dbl_min_underflow)
  show ?thesis
  proof (cases "s \<le> 0")
    case le: True
    then have "?c = 0" by simp
    then show ?thesis using True gamma_zero [of S] by (simp add: gamma_exact_def)
  next
    case gt: False
    with assms have "dbl_min \<le> s" by simp
    then have c: "dbl_min \<le> ?c" using m p by simp
    have "?c \<le> 1" by simp
    then have "2 * ?c + 1 < dbl_overflow" using dbl_overflow_bound by linarith
    from gamma_in_range [OF True c this] True show ?thesis by (simp add: gamma_exact_def)
  qed
qed

lemma sideInterpolant_general:
  assumes "ribbon_at S i = Some r"
  shows "sideInterpolant X S i (Fin si) di =
           map_option (\<lambda>d. r_eval X (curves S) r (min (max si 0) 1, d))
             (finite_value (dmax (gamma S di) (Fin 0)))"
  using assms
  by (cases "dmax (gamma S di) (Fin 0)") (simp_all add: sideInterpolant_def Let_def clamp_Fin)




section \<open>The rational twist\<close>



section \<open>Side blend weights\<close>

text \<open>
  Claim C8, as amended. \<open>blendSideSingular\<close> returns one weight per element of \<open>sds\<close>
  (fewer than \<open>2\<^sup>6\<^sup>4\<close> of them, as a vector has). Let \<open>k\<close> be the number of sides that pass
  the test \<open>d < epsilon\<close> of the source. If \<open>k \<ge> 1\<close>, each of those \<open>k\<close> sides gets \<open>1 / k\<close>
  and every other side gets 0, whatever the values of \<open>d\<close>. If \<open>k = 0\<close> and every \<open>d\<close> is
  a finite number between \<open>2\<^sup>-\<^sup>1\<^sup>0\<^sup>0\<close> and \<open>2\<^sup>1\<^sup>0\<^sup>0\<close>, side \<open>i\<close> gets \<open>d\<^sub>i\<^sup>-\<^sup>2\<close> divided by the sum
  of \<open>d\<^sub>j\<^sup>-\<^sup>2\<close> over all sides \<open>j\<close> (up to the rounding of the mantissa, which is not
  modelled).
\<close>

theorem blendSideSingular_weights:
  assumes "length sds < size_range"
  shows "length (blendSideSingular X S sds) = length sds \<and>
         (1 \<le> close_to_boundary X sds \<longrightarrow>
            (\<forall>i<length sds. blendSideSingular X S sds ! i =
               (if dless (snd (sds ! i)) (Fin (epsilon X))
                then Fin (1 / real (close_to_boundary X sds)) else Fin 0))) \<and>
         (close_to_boundary X sds = 0 \<longrightarrow>
            (\<forall>ds. map snd sds = map Fin ds \<and> (\<forall>d\<in>set ds. 1 / 2 ^ 100 \<le> d \<and> d \<le> 2 ^ 100) \<longrightarrow>
               blendSideSingular X S sds =
                 map (\<lambda>d. Fin ((1 / d\<^sup>2) / (\<Sum>e\<leftarrow>ds. 1 / e\<^sup>2))) ds))"
proof (intro conjI impI allI)
  show "length (blendSideSingular X S sds) = length sds"
    by (simp add: blendSideSingular_def Let_def)
next
  fix i
  assume k: "1 \<le> close_to_boundary X sds" and i: "i < length sds"
  have "close_to_boundary X sds < size_range"
    using close_to_boundary_le [of X sds] assms by simp
  with k have "ddiv (Fin 1) (Fin (real (close_to_boundary X sds))) =
      Fin (1 / real (close_to_boundary X sds))"
    by (intro equal_share_Fin) simp_all
  then show "blendSideSingular X S sds ! i =
      (if dless (snd (sds ! i)) (Fin (epsilon X))
       then Fin (1 / real (close_to_boundary X sds)) else Fin 0)"
    using k i by (simp add: blendSideSingular_def Let_def)
next
  fix ds
  assume "close_to_boundary X sds = 0"
    and "map snd sds = map Fin ds \<and> (\<forall>d\<in>set ds. 1 / 2 ^ 100 \<le> d \<and> d \<le> 2 ^ 100)"
  then show "blendSideSingular X S sds =
      map (\<lambda>d. Fin ((1 / d\<^sup>2) / (\<Sum>e\<leftarrow>ds. 1 / e\<^sup>2))) ds"
    using assms by (intro blendSideSingular_interior) simp_all
qed

theorem blendSideSingular_weights_witness:
  "length [(Fin 0, Fin 0), (Fin 0, Fin 2), (Fin 0, Fin 0), (Fin 0, Fin 1)] < size_range \<and>
   blendSideSingular seg_ext (seg_surface unit_square 4)
     [(Fin 0, Fin 0), (Fin 0, Fin 2), (Fin 0, Fin 0), (Fin 0, Fin 1)] ! 0 = Fin (1 / 2) \<and>
   blendSideSingular seg_ext (seg_surface unit_square 4)
     [(Fin 0, Fin 0), (Fin 0, Fin 2), (Fin 0, Fin 0), (Fin 0, Fin 1)] ! 1 = Fin 0 \<and>
   blendSideSingular seg_ext (seg_surface unit_square 4)
     [(Fin 0, Fin 1), (Fin 0, Fin 2), (Fin 0, Fin 1), (Fin 0, Fin 1)] =
     [Fin (4 / 13), Fin (1 / 13), Fin (4 / 13), Fin (4 / 13)]"
proof -
  let ?a = "[(Fin 0, Fin 0), (Fin 0, Fin 2), (Fin 0, Fin 0), (Fin 0, Fin 1)]"
  let ?b = "[(Fin 0, Fin 1), (Fin 0, Fin 2), (Fin 0, Fin 1), (Fin 0, Fin 1)]"
  have sz: "length ?a < size_range" "length ?b < size_range"
    by (simp_all add: size_range_def)
  have k2: "close_to_boundary seg_ext ?a = 2" and k0: "close_to_boundary seg_ext ?b = 0"
    by (simp_all add: close_to_boundary_def seg_ext_def)
  have e: "epsilon seg_ext = 1 / 100000000"
    by (simp add: seg_ext_def)
  note t1 = blendSideSingular_weights [OF sz(1), of seg_ext "seg_surface unit_square 4",
      THEN conjunct2, THEN conjunct1, unfolded k2, rule_format]
  have "blendSideSingular seg_ext (seg_surface unit_square 4) ?a ! 0 = Fin (1 / 2)"
    "blendSideSingular seg_ext (seg_surface unit_square 4) ?a ! 1 = Fin 0"
    using t1 [of 0] t1 [of 1] by (simp_all add: e)
  moreover
  note t2 = blendSideSingular_weights [OF sz(2), of seg_ext "seg_surface unit_square 4",
      THEN conjunct2, THEN conjunct2, rule_format, OF k0, of "[1, 2, 1, 1]"]
  have "blendSideSingular seg_ext (seg_surface unit_square 4) ?b =
      [Fin (4 / 13), Fin (1 / 13), Fin (4 / 13), Fin (4 / 13)]"
    using t2 by simp
  ultimately show ?thesis using sz by blast
qed

text \<open>
  The claim as stated fails for a large distance: with one side at \<open>d = 2\<^sup>5\<^sup>4\<^sup>0\<close> no side
  is close to the boundary, \<open>d\<^sup>-\<^sup>2 = 2\<^sup>-\<^sup>1\<^sup>0\<^sup>8\<^sup>0\<close> underflows to 0, the denominator is 0, and the
  weight is the NaN that \<open>0 / 0\<close> gives instead of 1.
\<close>

theorem blendSideSingular_underflow_counterexample:
  "close_to_boundary seg_ext [(Fin 0, Fin (2 ^ 540))] = 0 \<and>
   blendSideSingular seg_ext (seg_surface unit_square 4) [(Fin 0, Fin (2 ^ 540))] = [NaN]"
  by (simp add: blendSideSingular_def close_to_boundary_def seg_ext_def to_double_def
      dbl_overflow_def dbl_underflow_def power_int_minus)

section \<open>Partition of unity\<close>

text \<open>
  Claim C1, as amended. Let \<open>sds\<close> hold one pair per side, with \<open>1 \<le> N = n_ < 2\<^sup>6\<^sup>4\<close>, and
  let every \<open>d\<close> be a finite number that either passes the test \<open>d < epsilon\<close> of the
  source or lies between \<open>2\<^sup>-\<^sup>1\<^sup>0\<^sup>0\<close> and \<open>2\<^sup>1\<^sup>0\<^sup>0\<close>. Then every weight is finite and, in exact
  arithmetic (the rounding of the mantissa is not modelled): the weights of
  \<open>blendSideSingular\<close> sum to 1; the weights of \<open>blendCorner\<close> sum to 1 when no side has
  \<open>d < epsilon\<close>, and when exactly one side has and \<open>N \<ge> 2\<close>. When two or more sides have
  \<open>d < epsilon\<close>, the weights of \<open>blendCorner\<close> sum to the number of corners both of
  whose sides have \<open>d < epsilon\<close>; that number is 1 when the sides with \<open>d < epsilon\<close> are
  exactly two neighbours \<open>i\<close> and \<open>next i\<close> and \<open>N \<ge> 3\<close>.
\<close>

theorem blend_weights_sum:
  assumes "length sds = m_n S" "0 < m_n S" "m_n S < size_range"
    and "map snd sds = map Fin ds"
    and "\<forall>d\<in>set ds. d < epsilon X \<or> (1 / 2 ^ 100 \<le> d \<and> d \<le> 2 ^ 100)"
  shows "(\<exists>ws. blendSideSingular X S sds = map Fin ws \<and> sum_list ws = 1) \<and>
         (close_to_boundary X sds = 0 \<or> (close_to_boundary X sds = 1 \<and> 2 \<le> m_n S) \<longrightarrow>
            (\<exists>ws. blendCorner X S sds = Some (map Fin ws) \<and> sum_list ws = 1)) \<and>
         (2 \<le> close_to_boundary X sds \<longrightarrow>
            (\<exists>ws. blendCorner X S sds = Some (map Fin ws) \<and>
               sum_list ws =
                 real (card {i. i < m_n S \<and> dless (snd (sds ! i)) (Fin (epsilon X)) \<and>
                                dless (snd (sds ! next_idx (m_n S) i)) (Fin (epsilon X))}))) \<and>
         (\<forall>i0. 3 \<le> m_n S \<and> i0 < m_n S \<and>
               (\<forall>j<m_n S. dless (snd (sds ! j)) (Fin (epsilon X)) \<longleftrightarrow>
                            j = i0 \<or> j = next_idx (m_n S) i0) \<longrightarrow>
            (\<exists>ws. blendCorner X S sds = Some (map Fin ws) \<and> sum_list ws = 1))"
proof (intro conjI impI allI)
  show "\<exists>ws. blendSideSingular X S sds = map Fin ws \<and> sum_list ws = 1"
    using assms by (intro blendSideSingular_sum) auto
next
  assume "close_to_boundary X sds = 0 \<or> close_to_boundary X sds = 1 \<and> 2 \<le> m_n S"
  then show "\<exists>ws. blendCorner X S sds = Some (map Fin ws) \<and> sum_list ws = 1"
    using assms blendCorner_interior_sum blendCorner_side_sum by blast
next
  assume "2 \<le> close_to_boundary X sds"
  then show "\<exists>ws. blendCorner X S sds = Some (map Fin ws) \<and>
      sum_list ws = real (card {i. i < m_n S \<and> dless (snd (sds ! i)) (Fin (epsilon X)) \<and>
                                   dless (snd (sds ! next_idx (m_n S) i)) (Fin (epsilon X))})"
    using assms(1) by (rule blendCorner_corner_sum [rotated])
next
  fix i0
  let ?close = "\<lambda>j. dless (snd (sds ! j)) (Fin (epsilon X))"
  assume h: "3 \<le> m_n S \<and> i0 < m_n S \<and>
    (\<forall>j<m_n S. ?close j \<longleftrightarrow> j = i0 \<or> j = next_idx (m_n S) i0)"
  then have B: "\<And>j. j < m_n S \<Longrightarrow> ?close j \<longleftrightarrow> j = i0 \<or> j = next_idx (m_n S) i0"
    by blast
  have "close_to_boundary X sds = 2"
    unfolding close_to_boundary_def
    by (rule adjacent_pair_count [of _ i0]) (use h assms(1) in auto)
  then have k: "2 \<le> close_to_boundary X sds" by simp
  have "{i. i < m_n S \<and> ?close i \<and> ?close (next_idx (m_n S) i)} = {i0}"
    using h B by (intro adjacent_pair_corner [of "m_n S" i0 ?close]) auto
  with blendCorner_corner_sum [OF assms(1) k]
  show "\<exists>ws. blendCorner X S sds = Some (map Fin ws) \<and> sum_list ws = 1"
    by simp
qed

theorem blend_weights_sum_witness:
  "length [(Fin 0, Fin 1), (Fin 0, Fin 2), (Fin 0, Fin 1), (Fin 0, Fin 1)]
     = m_n (seg_surface unit_square 4) \<and>
   0 < m_n (seg_surface unit_square 4) \<and> m_n (seg_surface unit_square 4) < size_range \<and>
   (\<exists>ws. blendSideSingular seg_ext (seg_surface unit_square 4)
            [(Fin 0, Fin 1), (Fin 0, Fin 2), (Fin 0, Fin 1), (Fin 0, Fin 1)] = map Fin ws \<and>
          sum_list ws = 1) \<and>
   (\<exists>ws. blendCorner seg_ext (seg_surface unit_square 4)
            [(Fin 0, Fin 1), (Fin 0, Fin 2), (Fin 0, Fin 1), (Fin 0, Fin 1)] = Some (map Fin ws) \<and>
          sum_list ws = 1) \<and>
   (\<exists>ws. blendCorner seg_ext (seg_surface unit_square 4)
            [(Fin 0, Fin 0), (Fin 0, Fin 2), (Fin 0, Fin 1), (Fin 0, Fin 1)] = Some (map Fin ws) \<and>
          sum_list ws = 1) \<and>
   2 \<le> close_to_boundary seg_ext [(Fin 0, Fin 0), (Fin 0, Fin 0), (Fin 0, Fin 1), (Fin 0, Fin 1)] \<and>
   (\<exists>ws. blendCorner seg_ext (seg_surface unit_square 4)
            [(Fin 0, Fin 0), (Fin 0, Fin 0), (Fin 0, Fin 1), (Fin 0, Fin 1)] = Some (map Fin ws) \<and>
          sum_list ws =
            real (card {i. i < 4 \<and>
               dless (snd ([(Fin 0, Fin 0), (Fin 0, Fin 0), (Fin 0, Fin 1), (Fin 0, Fin 1)] ! i))
                 (Fin (epsilon seg_ext)) \<and>
               dless (snd ([(Fin 0, Fin 0), (Fin 0, Fin 0), (Fin 0, Fin 1), (Fin 0, Fin 1)]
                             ! next_idx 4 i))
                 (Fin (epsilon seg_ext))})) \<and>
   (\<exists>ws. blendCorner seg_ext (seg_surface unit_square 4)
            [(Fin 0, Fin 0), (Fin 0, Fin 0), (Fin 0, Fin 1), (Fin 0, Fin 1)] = Some (map Fin ws) \<and>
          sum_list ws = 1)"
proof -
  let ?S = "seg_surface unit_square 4"
  let ?A = "[(Fin 0, Fin 1), (Fin 0, Fin 2), (Fin 0, Fin 1), (Fin 0, Fin 1)]"
  let ?B = "[(Fin 0, Fin 0), (Fin 0, Fin 2), (Fin 0, Fin 1), (Fin 0, Fin 1)]"
  let ?C = "[(Fin 0, Fin 0), (Fin 0, Fin 0), (Fin 0, Fin 1), (Fin 0, Fin 1)]"
  have e: "epsilon seg_ext = 1 / 100000000"
    by (simp add: seg_ext_def)
  have n: "m_n ?S = 4"
    by (simp add: seg_surface_def setCurves_def)
  have lA: "length ?A = m_n ?S" and lB: "length ?B = m_n ?S" and lC: "length ?C = m_n ?S"
    and n0: "0 < m_n ?S" and sz: "m_n ?S < size_range"
    by (simp_all add: n size_range_def)
  have dA: "map snd ?A = map Fin [1, 2, 1, 1]" and dB: "map snd ?B = map Fin [0, 2, 1, 1]"
    and dC: "map snd ?C = map Fin [0, 0, 1, 1]"
    by simp_all
  have rA: "\<forall>d\<in>set [1, 2, 1, 1]. d < epsilon seg_ext \<or> (1 / 2 ^ 100 \<le> d \<and> d \<le> 2 ^ 100)"
    and rB: "\<forall>d\<in>set [0, 2, 1, 1]. d < epsilon seg_ext \<or> (1 / 2 ^ 100 \<le> d \<and> d \<le> 2 ^ 100)"
    and rC: "\<forall>d\<in>set [0, 0, 1, 1]. d < epsilon seg_ext \<or> (1 / 2 ^ 100 \<le> d \<and> d \<le> 2 ^ 100)"
    by (simp_all add: e)
  have kA: "close_to_boundary seg_ext ?A = 0" and kB: "close_to_boundary seg_ext ?B = 1"
    and kC: "close_to_boundary seg_ext ?C = 2"
    by (simp_all add: close_to_boundary_def e)
  have four: "\<And>j::nat. j < 4 \<longleftrightarrow> j = 0 \<or> j = 1 \<or> j = 2 \<or> j = 3"
    by auto
  have adj: "3 \<le> m_n ?S \<and> 0 < m_n ?S \<and>
      (\<forall>j<m_n ?S. dless (snd (?C ! j)) (Fin (epsilon seg_ext)) \<longleftrightarrow>
                    j = 0 \<or> j = next_idx (m_n ?S) 0)"
    unfolding n by (simp add: four e next_idx_def)
  note tA = blend_weights_sum [OF lA n0 sz dA rA]
  note tB = blend_weights_sum [OF lB n0 sz dB rB]
  note tC = blend_weights_sum [OF lC n0 sz dC rC]
  from tA have side: "\<exists>ws. blendSideSingular seg_ext ?S ?A = map Fin ws \<and> sum_list ws = 1"
    by (rule conjunct1)
  from tA kA have inner: "\<exists>ws. blendCorner seg_ext ?S ?A = Some (map Fin ws) \<and> sum_list ws = 1"
    by blast
  from tB kB n have edge: "\<exists>ws. blendCorner seg_ext ?S ?B = Some (map Fin ws) \<and> sum_list ws = 1"
    by simp
  from tC adj have corner: "\<exists>ws. blendCorner seg_ext ?S ?C = Some (map Fin ws) \<and> sum_list ws = 1"
    by blast
  from kC have k2: "2 \<le> close_to_boundary seg_ext ?C"
    by simp
  from tC k2 have count: "\<exists>ws. blendCorner seg_ext ?S ?C = Some (map Fin ws) \<and>
      sum_list ws = real (card {i. i < 4 \<and> dless (snd (?C ! i)) (Fin (epsilon seg_ext)) \<and>
                                   dless (snd (?C ! next_idx 4 i)) (Fin (epsilon seg_ext))})"
    unfolding n by blast
  from lA n0 sz side inner edge k2 count corner show ?thesis
    by blast
qed

text \<open>
  The claim as stated fails: on a four-sided surface with sides 0 and 2 on the boundary
  and sides 1 and 3 away from it, no corner has both of its sides on the boundary, every
  weight of \<open>blendCorner\<close> is 0, and the weights sum to 0.
\<close>

theorem blendCorner_sum_counterexample:
  "length [(Fin 0, Fin 0), (Fin 0, Fin 1), (Fin 0, Fin 0), (Fin 0, Fin 1)]
     = m_n (seg_surface unit_square 4) \<and>
   blendCorner seg_ext (seg_surface unit_square 4)
     [(Fin 0, Fin 0), (Fin 0, Fin 1), (Fin 0, Fin 0), (Fin 0, Fin 1)]
     = Some [Fin 0, Fin 0, Fin 0, Fin 0] \<and>
   sum_list [0, 0, 0, 0] \<noteq> (1::real)"
  by (simp add: blendCorner_def close_to_boundary_def seg_ext_def seg_surface_def setCurves_def
      Surface_def blendCorner_boundary_def d_at_def next_idx_def upt_rec)

section \<open>Where the gamma remap is applied\<close>

text \<open>
  Claim C3, as amended. The blend-weight functions do not read the flag: whatever value
  \<open>setGamma\<close> stores, \<open>blendCorner\<close> and \<open>blendSideSingular\<close> return the same weights.
  \<open>sideInterpolant\<close> evaluates its ribbon at the clamped \<open>s\<close> and at \<open>max (gamma d) 0\<close>
  whenever that is finite: at \<open>max d 0\<close> with the flag cleared; with the flag set, at
  \<open>d / (2 d + 1)\<close> for \<open>d = 0\<close> and for \<open>d\<close> from the least positive value of the type up to
  where \<open>2 d + 1\<close> overflows, and at 0 both for \<open>d = -1/2\<close> (where \<open>gamma\<close> is the negative
  infinity) and once \<open>2 d\<close> overflows. \<open>cornerCorrection\<close> clamps both of its parameters
  to \<open>[0, 1]\<close>; the remapped values are the factors of the two tangents and of the twist
  term, but the rational twist itself is taken at the clamped parameters, before any
  remap.
\<close>

theorem gamma_only_in_interpolants:
  "blendCorner X (setGamma S b) sds = blendCorner X S sds \<and>
   blendSideSingular X (setGamma S b) sds = blendSideSingular X S sds \<and>
   (\<forall>r. ribbon_at S i = Some r \<longrightarrow>
      sideInterpolant X S i (Fin si) d =
        map_option (\<lambda>d'. r_eval X (curves S) r (min (max si 0) 1, d'))
          (finite_value (dmax (gamma S d) (Fin 0))) \<and>
      (\<not> m_use_gamma S \<longrightarrow>
         sideInterpolant X S i (Fin si) (Fin di) =
           Some (r_eval X (curves S) r (min (max si 0) 1, max di 0))) \<and>
      (m_use_gamma S \<and> (di = 0 \<or> dbl_min \<le> di) \<and> 2 * di + 1 < dbl_overflow \<longrightarrow>
         sideInterpolant X S i (Fin si) (Fin di) =
           Some (r_eval X (curves S) r (min (max si 0) 1, di / (2 * di + 1)))) \<and>
      (m_use_gamma S \<and> (di = - 1 / 2 \<or> dbl_overflow \<le> 2 * di) \<longrightarrow>
         sideInterpolant X S i (Fin si) (Fin di) =
           Some (r_eval X (curves S) r (min (max si 0) 1, 0)))) \<and>
   (\<forall>cd. corner_at S i = Some cd \<and> (si \<le> 0 \<or> dbl_min \<le> si) \<and> (sj \<le> 0 \<or> dbl_min \<le> sj) \<longrightarrow>
      cornerCorrection X S i (Fin si) (Fin sj) =
        map_option
          (\<lambda>tw. vadd (vadd (vadd (point cd)
                   (vmul (tangent1 cd) (gamma_exact S (min (max si 0) 1))))
                   (vmul (tangent2 cd) (gamma_exact S (min (max sj 0) 1))))
                   (vmul (vmul tw (gamma_exact S (min (max si 0) 1)))
                      (gamma_exact S (min (max sj 0) 1))))
          (rationalTwist X (min (max si 0) 1) (min (max sj 0) 1) (twist1 cd) (twist2 cd)))"
proof (intro conjI allI impI)
  show "blendCorner X (setGamma S b) sds = blendCorner X S sds"
    by (simp add: blendCorner_def setGamma_def blendCorner_boundary_flag blendCorner_interior_flag
        cong: if_cong)
next
  show "blendSideSingular X (setGamma S b) sds = blendSideSingular X S sds"
    by (simp add: blendSideSingular_def)
next
  fix r assume "ribbon_at S i = Some r"
  then show "sideInterpolant X S i (Fin si) d =
        map_option (\<lambda>d'. r_eval X (curves S) r (min (max si 0) 1, d'))
          (finite_value (dmax (gamma S d) (Fin 0)))"
    by (rule sideInterpolant_general)
next
  fix r assume r: "ribbon_at S i = Some r" and g: "\<not> m_use_gamma S"
  have "dmax (gamma S (Fin di)) (Fin 0) = Fin (max di 0)"
    using g by (simp add: gamma_def dmax_def max_def)
  then show "sideInterpolant X S i (Fin si) (Fin di) =
      Some (r_eval X (curves S) r (min (max si 0) 1, max di 0))"
    by (simp add: sideInterpolant_general [OF r])
next
  fix r
  assume r: "ribbon_at S i = Some r"
    and h: "m_use_gamma S \<and> (di = 0 \<or> dbl_min \<le> di) \<and> 2 * di + 1 < dbl_overflow"
  have p: "0 < dbl_min" using dbl_underflow_bounds by (simp add: dbl_min_underflow)
  have "gamma S (Fin di) = Fin (di / (2 * di + 1))"
    using h gamma_zero [of S] gamma_in_range [of S di] by auto
  moreover have "0 \<le> di / (2 * di + 1)" using h p by auto
  ultimately have "dmax (gamma S (Fin di)) (Fin 0) = Fin (di / (2 * di + 1))"
    by (simp add: dmax_def)
  then show "sideInterpolant X S i (Fin si) (Fin di) =
      Some (r_eval X (curves S) r (min (max si 0) 1, di / (2 * di + 1)))"
    by (simp add: sideInterpolant_general [OF r])
next
  fix r
  assume r: "ribbon_at S i = Some r"
    and h: "m_use_gamma S \<and> (di = - 1 / 2 \<or> dbl_overflow \<le> 2 * di)"
  have "gamma S (Fin di) = NInf \<or> gamma S (Fin di) = Fin 0"
    using h gamma_at_pole [of S] gamma_overflow [of S di] by auto
  then have "dmax (gamma S (Fin di)) (Fin 0) = Fin 0"
    by (auto simp: dmax_def)
  then show "sideInterpolant X S i (Fin si) (Fin di) =
      Some (r_eval X (curves S) r (min (max si 0) 1, 0))"
    by (simp add: sideInterpolant_general [OF r])
next
  fix cd
  assume h: "corner_at S i = Some cd \<and> (si \<le> 0 \<or> dbl_min \<le> si) \<and> (sj \<le> 0 \<or> dbl_min \<le> sj)"
  let ?s = "min (max si 0) 1" and ?sj = "min (max sj 0) 1"
  have g: "gamma S (Fin ?s) = Fin (gamma_exact S ?s)"
    and g1: "gamma S (Fin ?sj) = Fin (gamma_exact S ?sj)"
    using h by (simp_all add: gamma_clamped)
  show "cornerCorrection X S i (Fin si) (Fin sj) =
        map_option
          (\<lambda>tw. vadd (vadd (vadd (point cd)
                   (vmul (tangent1 cd) (gamma_exact S ?s)))
                   (vmul (tangent2 cd) (gamma_exact S ?sj)))
                   (vmul (vmul tw (gamma_exact S ?s)) (gamma_exact S ?sj)))
          (rationalTwist X ?s ?sj (twist1 cd) (twist2 cd))"
    using h
    by (cases "rationalTwist X ?s ?sj (twist1 cd) (twist2 cd)")
       (simp_all add: cornerCorrection_def Let_def clamp_Fin g g1)
qed

theorem gamma_only_in_interpolants_witness:
  "blendCorner seg_ext (setGamma (seg_surface unit_square 4) False)
       [(Fin 0, Fin 0), (Fin 0, Fin 2), (Fin 0, Fin 1), (Fin 0, Fin 1)]
     = blendCorner seg_ext (seg_surface unit_square 4)
         [(Fin 0, Fin 0), (Fin 0, Fin 2), (Fin 0, Fin 1), (Fin 0, Fin 1)] \<and>
   blendSideSingular seg_ext (setGamma (seg_surface unit_square 4) False)
       [(Fin 0, Fin 0), (Fin 0, Fin 2), (Fin 0, Fin 1), (Fin 0, Fin 1)]
     = blendSideSingular seg_ext (seg_surface unit_square 4)
         [(Fin 0, Fin 0), (Fin 0, Fin 2), (Fin 0, Fin 1), (Fin 0, Fin 1)] \<and>
   sideInterpolant seg_ext (seg_surface unit_square 4) 1 (Fin (1 / 2)) (Fin 1)
     = Some (1, 1 / 2, 1 / 3) \<and>
   sideInterpolant seg_ext (seg_surface unit_square 4) 1 (Fin (1 / 2)) (Fin (- 1 / 2))
     = Some (1, 1 / 2, 0) \<and>
   sideInterpolant seg_ext (seg_surface unit_square 4) 1 (Fin (1 / 2)) NaN = None \<and>
   sideInterpolant seg_ext (setGamma (seg_surface unit_square 4) False) 1 (Fin (1 / 2)) (Fin 1)
     = Some (1, 1 / 2, 1) \<and>
   cornerCorrection seg_ext ((seg_surface unit_square 4)\<lparr>m_corner_data := unit_square_corners\<rparr>)
       0 (Fin (1 / 2)) (Fin (1 / 2))
     = Some (3 / 4, 9 / 32, 0)"
proof -
  let ?S = "seg_surface unit_square 4"
  let ?T = "setGamma ?S False"
  let ?U = "?S\<lparr>m_corner_data := unit_square_corners\<rparr>"
  let ?sds = "[(Fin 0, Fin 0), (Fin 0, Fin 2), (Fin 0, Fin 1), (Fin 0, Fin 1)]"
  let ?r = "\<lparr>r_curve = Some 1, r_prev = None, r_next = None, r_data = ()\<rparr>"
  let ?cd = "\<lparr>point = (1, 0, 0), tangent1 = (- 1, 0, 0), tangent2 = (0, 1, 0),
       twist1 = (0, 1, 0), twist2 = (0, 0, 0)\<rparr>"
  have on: "m_use_gamma ?S" "m_use_gamma ?U" and off: "\<not> m_use_gamma ?T"
    by (simp_all add: seg_surface_def setCurves_def Surface_def setGamma_def)
  have r: "ribbon_at ?S 1 = Some ?r" "ribbon_at ?T 1 = Some ?r"
    by (simp_all add: ribbon_at_def slot_def seg_surface_def setCurves_def Surface_def
        setGamma_def setCurve_r_def seg_ext_def upt_rec)
  have cd: "corner_at ?U 0 = Some ?cd"
    by (simp add: corner_at_def unit_square_corners_def)
  have ev: "r_eval seg_ext (curves ?S) ?r (1 / 2, 1 / 3) = (1, 1 / 2, 1 / 3)"
      "r_eval seg_ext (curves ?S) ?r (1 / 2, 0) = (1, 1 / 2, 0)"
      "r_eval seg_ext (curves ?T) ?r (1 / 2, 1) = (1, 1 / 2, 1)"
    by (simp_all add: seg_ext_def seg_ribbon_eval_def seg_surface_def setCurves_def Surface_def
        setGamma_def unit_square_def seg_eval_def)
  have rng: "dbl_min \<le> 1" "dbl_min \<le> 1 / 2" "2 * 1 + 1 < dbl_overflow"
    by (simp_all add: dbl_min_def dbl_overflow_def)
  note t1 = gamma_only_in_interpolants [where X = seg_ext and S = ?S and b = False
      and sds = ?sds and i = 1 and si = "1 / 2" and di = 1 and d = NaN]
  note t1' = gamma_only_in_interpolants [where X = seg_ext and S = ?S and b = False
      and sds = ?sds and i = 1 and si = "1 / 2" and di = "- 1 / 2"]
  note t2 = gamma_only_in_interpolants [where X = seg_ext and S = ?T and b = False
      and sds = ?sds and i = 1 and si = "1 / 2" and di = 1]
  note t3 = gamma_only_in_interpolants [where X = seg_ext and S = ?U and b = False
      and sds = ?sds and i = 0 and si = "1 / 2" and sj = "1 / 2"]
  from t1 have a: "blendCorner seg_ext ?T ?sds = blendCorner seg_ext ?S ?sds"
    by (rule conjunct1)
  from t1 have b: "blendSideSingular seg_ext ?T ?sds = blendSideSingular seg_ext ?S ?sds"
    by (rule conjunct2 [THEN conjunct1])
  note s1 = t1 [THEN conjunct2, THEN conjunct2, THEN conjunct1, rule_format, OF r(1)]
  note s1' = t1' [THEN conjunct2, THEN conjunct2, THEN conjunct1, rule_format, OF r(1)]
  note s2 = t2 [THEN conjunct2, THEN conjunct2, THEN conjunct1, rule_format, OF r(2)]
  have c: "sideInterpolant seg_ext ?S 1 (Fin (1 / 2)) (Fin 1) = Some (1, 1 / 2, 1 / 3)"
    using s1 [THEN conjunct2, THEN conjunct2, THEN conjunct1] on(1) rng ev(1) by simp
  have c': "sideInterpolant seg_ext ?S 1 (Fin (1 / 2)) (Fin (- 1 / 2)) = Some (1, 1 / 2, 0)"
    using s1' [THEN conjunct2, THEN conjunct2, THEN conjunct2] on(1) ev(2) by simp
  have n: "sideInterpolant seg_ext ?S 1 (Fin (1 / 2)) NaN = None"
    using s1 [THEN conjunct1] on(1) by (simp add: gamma_def dmax_def)
  have d: "sideInterpolant seg_ext ?T 1 (Fin (1 / 2)) (Fin 1) = Some (1, 1 / 2, 1)"
    using s2 [THEN conjunct2, THEN conjunct1] off ev(3) by simp
  have tw: "rationalTwist seg_ext (1 / 2) (1 / 2) (twist1 ?cd) (twist2 ?cd) = Some (0, 1 / 2, 0)"
    by (simp add: rationalTwist_def seg_ext_def)
  have e: "cornerCorrection seg_ext ?U 0 (Fin (1 / 2)) (Fin (1 / 2)) = Some (3 / 4, 9 / 32, 0)"
    using t3 [THEN conjunct2, THEN conjunct2, THEN conjunct2, rule_format, of ?cd] cd rng(2) on(2) tw
    by (simp add: gamma_exact_def)
  from a b c c' n d e show ?thesis
    by (intro conjI)
qed

text \<open>
  The claim as stated fails in its last part: \<open>cornerCorrection\<close> does not apply \<open>gamma\<close>
  to both parameters before every use. At corner 0 of the unit square and the parameters
  \<open>(1/2, 1)\<close> the source passes \<open>(1/2, 1)\<close> to the rational twist and returns
  \<open>(3/4, 13/36, 0)\<close>; remapping first would pass \<open>(1/4, 1/3)\<close> and return \<open>(3/4, 31/84, 0)\<close>.
\<close>

theorem cornerCorrection_remap_counterexample:
  "cornerCorrection seg_ext ((seg_surface unit_square 4)\<lparr>m_corner_data := unit_square_corners\<rparr>)
       0 (Fin (1 / 2)) (Fin 1) = Some (3 / 4, 13 / 36, 0) \<and>
   cornerCorrection_remapped seg_ext
       ((seg_surface unit_square 4)\<lparr>m_corner_data := unit_square_corners\<rparr>)
       0 (Fin (1 / 2)) (Fin 1) = Some (3 / 4, 31 / 84, 0)"
  by (simp add: cornerCorrection_def cornerCorrection_remapped_def Let_def dmin_def dmax_def
      gamma_def to_double_def dbl_overflow_def dbl_underflow_def corner_at_def
      unit_square_corners_def rationalTwist_def seg_ext_def seg_surface_def setCurves_def
      Surface_def)

section \<open>The twist vectors of a corner\<close>

text \<open>
  Claim C2. The step is \<open>10\<^sup>-\<^sup>4\<close>. When \<open>updateCorner i\<close> returns, the estimate on ribbon
  \<open>i\<close> near \<open>s = 1\<close> has been computed, and \<open>twist1\<close> of corner \<open>i\<close> holds the estimate
  \<open>(d2 - d1) / step\<close> on ribbon \<open>next i\<close> near \<open>s = 0\<close>, which was assigned last; \<open>twist2\<close>
  of corner \<open>i\<close> is what it was before the call. After \<open>update()\<close>, \<open>twist1\<close> of every
  corner \<open>j < n_\<close> is the estimate on ribbon \<open>next j\<close>.
\<close>

theorem updateCorner_twist:
  "step = 1 / 10000 \<and>
   (\<forall>S'. updateCorner X S i = Some S' \<longrightarrow>
      (\<exists>t. own_twist X S i = Some t) \<and>
      next_twist X S i = Some (twist1 (m_corner_data S' ! i)) \<and>
      twist2 (m_corner_data S' ! i) = twist2 (m_corner_data S ! i)) \<and>
   (\<forall>S'. update X S = Some S' \<longrightarrow>
      (\<forall>j<m_n S'. next_twist X S' j = Some (twist1 (m_corner_data S' ! j))))"
proof (intro conjI allI impI)
  show "step = 1 / 10000" by (simp add: step_def)
next
  fix S' assume "updateCorner X S i = Some S'"
  then show "\<exists>t. own_twist X S i = Some t" by (rule updateCorner_own_twist)
next
  fix S' assume u: "updateCorner X S i = Some S'"
  from updateCorner_Some [OF u]
  show "next_twist X S i = Some (twist1 (m_corner_data S' ! i))"
    and "twist2 (m_corner_data S' ! i) = twist2 (m_corner_data S ! i)"
    by auto
next
  fix S' j assume "update X S = Some S'" "j < m_n S'"
  with update_effect [of X S S']
  show "next_twist X S' j = Some (twist1 (m_corner_data S' ! j))" by simp
qed

theorem updateCorner_twist_witness:
  "own_twist seg_ext stale_square 0 = Some (- 1, 0, 0) \<and>
   next_twist seg_ext stale_square 0 = Some (0, 1, 0) \<and>
   (\<exists>S'. updateCorner seg_ext stale_square 0 = Some S' \<and>
      twist1 (m_corner_data S' ! 0) = (0, 1, 0) \<and> twist2 (m_corner_data S' ! 0) = (7, 7, 7)) \<and>
   (\<exists>S'. update seg_ext (seg_surface unit_square 4) = Some S' \<and> (3::nat) < m_n S' \<and>
      twist1 (m_corner_data S' ! 3) = (1, 0, 0) \<and>
      next_twist seg_ext S' 3 = Some (1, 0, 0))"
proof -
  let ?V = "stale_square"
  let ?V' = "stale_square\<lparr>m_corner_data :=
        [\<lparr>point = (1, 0, 0), tangent1 = (- 1, 0, 0), tangent2 = (0, 1, 0),
          twist1 = (0, 1, 0), twist2 = (7, 7, 7)\<rparr>,
         stale_corner, stale_corner, stale_corner, stale_corner]\<rparr>"
  let ?S = "seg_surface unit_square 4"
  let ?U = "?S\<lparr>m_corner_data := unit_square_corners\<rparr>"
  have own: "own_twist seg_ext ?V 0 = Some (- 1, 0, 0)"
    by (simp add: own_twist_def stale_square_def seg_surface_def setCurves_def Surface_def
        seg_ext_def unit_square_def upt_rec ribbon_at_def slot_def setCurve_r_def
        seg_eval_def seg_ribbon_eval_def step_def)
  have old: "twist2 (m_corner_data ?V ! 0) = (7, 7, 7)"
    by (simp add: stale_square_def stale_corner_def)
  note t = updateCorner_twist [of seg_ext ?V 0, THEN conjunct2, THEN conjunct1, rule_format,
      OF updateCorner_stale_square]
  note a = t [THEN conjunct2, THEN conjunct1] and b = t [THEN conjunct2, THEN conjunct2]
  have tw1: "twist1 (m_corner_data ?V' ! 0) = (0, 1, 0)" by simp
  from a tw1 have nt: "next_twist seg_ext ?V 0 = Some (0, 1, 0)" by simp
  from b old have tw2: "twist2 (m_corner_data ?V' ! 0) = (7, 7, 7)" by simp
  from updateCorner_stale_square tw1 tw2
  have first: "\<exists>S'. updateCorner seg_ext ?V 0 = Some S' \<and>
      twist1 (m_corner_data S' ! 0) = (0, 1, 0) \<and> twist2 (m_corner_data S' ! 0) = (7, 7, 7)"
    by (intro exI conjI)
  have n: "(3::nat) < m_n ?U"
    by (simp add: seg_surface_def setCurves_def)
  have tw: "twist1 (m_corner_data ?U ! 3) = (1, 0, 0)"
    by (simp add: unit_square_corners_def)
  have "next_twist seg_ext ?U 3 = Some (twist1 (m_corner_data ?U ! 3))"
    by (rule updateCorner_twist [of seg_ext ?S 0, THEN conjunct2, THEN conjunct2, rule_format,
          OF update_unit_square n])
  with tw have nt3: "next_twist seg_ext ?U 3 = Some (1, 0, 0)" by simp
  from update_unit_square n tw nt3
  have second: "\<exists>S'. update seg_ext ?S = Some S' \<and> (3::nat) < m_n S' \<and>
      twist1 (m_corner_data S' ! 3) = (1, 0, 0) \<and> next_twist seg_ext S' 3 = Some (1, 0, 0)"
    by (intro exI conjI)
  from own nt first second show ?thesis by (intro conjI)
qed

section \<open>The frame of the single-index \<^verbatim>\<open>update\<close>\<close>

text \<open>
  Claim C10. When \<open>update(i)\<close> returns, the corner-data sequence has the length it had
  before, and every entry other than those at \<open>i\<close> and \<open>prev i\<close> is unchanged. When
  \<open>update()\<close> returns, the corner-data sequence has length \<open>n_\<close>.
\<close>

theorem update_i_frame:
  "(\<forall>S'. update_i X S i = Some S' \<longrightarrow>
      length (m_corner_data S') = length (m_corner_data S) \<and>
      (\<forall>j. j \<noteq> i \<and> j \<noteq> prev_idx (m_n S) i \<longrightarrow> corner_at S' j = corner_at S j)) \<and>
   (\<forall>S'. update X S = Some S' \<longrightarrow> length (m_corner_data S') = m_n S)"
proof (intro conjI)
  show "\<forall>S'. update_i X S i = Some S' \<longrightarrow>
      length (m_corner_data S') = length (m_corner_data S) \<and>
      (\<forall>j. j \<noteq> i \<and> j \<noteq> prev_idx (m_n S) i \<longrightarrow> corner_at S' j = corner_at S j)"
  proof (intro allI impI)
    fix S' assume u: "update_i X S i = Some S'"
    then obtain S1 S2 where 1: "update_ribbon X (update_domain X S) i = Some S1"
      and 2: "updateCorner X S1 (prev_idx (m_n S1) i) = Some S2"
      and 3: "updateCorner X S2 i = Some S'"
      by (auto simp: update_i_def split: Option.bind_splits)
    from update_ribbon_frame [OF 1] update_domain_frame [of X S]
    have f1: "m_n S1 = m_n S" "m_corner_data S1 = m_corner_data S" by simp_all
    note f2 = updateCorner_frame [OF 2] and f3 = updateCorner_frame [OF 3]
    have c1: "\<And>j. corner_at S1 j = corner_at S j"
      using f1 by (simp add: corner_at_def)
    have "length (m_corner_data S') = length (m_corner_data S)"
      using f1 f2 f3 by simp
    moreover have "\<forall>j. j \<noteq> i \<and> j \<noteq> prev_idx (m_n S) i \<longrightarrow> corner_at S' j = corner_at S j"
      using f1(1) f2 f3 c1 by simp
    ultimately show "length (m_corner_data S') = length (m_corner_data S) \<and>
      (\<forall>j. j \<noteq> i \<and> j \<noteq> prev_idx (m_n S) i \<longrightarrow> corner_at S' j = corner_at S j)"
      by (rule conjI)
  qed
next
  show "\<forall>S'. update X S = Some S' \<longrightarrow> length (m_corner_data S') = m_n S"
  proof (intro allI impI)
    fix S' assume "update X S = Some S'"
    with update_effect [of X S S'] show "length (m_corner_data S') = m_n S" by simp
  qed
qed

theorem update_i_frame_witness:
  "(\<exists>S'. update_i seg_ext stale_square 1 = Some S' \<and>
      length (m_corner_data stale_square) = 5 \<and> length (m_corner_data S') = 5 \<and>
      corner_at stale_square 2 = Some stale_corner \<and> corner_at S' 2 = Some stale_corner \<and>
      corner_at S' 4 = Some stale_corner \<and>
      corner_at stale_square 1 = Some stale_corner \<and> corner_at S' 1 \<noteq> Some stale_corner) \<and>
   (\<exists>S'. update seg_ext stale_square = Some S' \<and> m_n stale_square = 4 \<and>
      length (m_corner_data S') = 4)"
proof -
  let ?V = "stale_square\<lparr>m_corner_data :=
        [\<lparr>point = (1, 0, 0), tangent1 = (- 1, 0, 0), tangent2 = (0, 1, 0),
          twist1 = (0, 1, 0), twist2 = (7, 7, 7)\<rparr>,
         \<lparr>point = (1, 1, 0), tangent1 = (0, - 1, 0), tangent2 = (- 1, 0, 0),
          twist1 = (- 1, 0, 0), twist2 = (7, 7, 7)\<rparr>,
         stale_corner, stale_corner, stale_corner]\<rparr>"
  have n: "m_n stale_square = 4" and len: "length (m_corner_data stale_square) = 5"
    by (simp_all add: stale_square_def seg_surface_def setCurves_def)
  have pv: "prev_idx (m_n stale_square) 1 = 0"
    by (simp add: n prev_idx_def)
  have c: "corner_at stale_square 1 = Some stale_corner"
      "corner_at stale_square 2 = Some stale_corner"
      "corner_at stale_square 4 = Some stale_corner"
    by (simp_all add: corner_at_def stale_square_def)
  have c1: "corner_at ?V 1 \<noteq> Some stale_corner"
    by (simp add: corner_at_def stale_corner_def)
  note t = update_i_frame [of seg_ext stale_square 1, THEN conjunct1, rule_format,
      OF update_i_stale_square]
  note u = update_i_frame [of seg_ext stale_square 1, THEN conjunct2, rule_format,
      OF update_stale_square]
  from t have l: "length (m_corner_data ?V) = length (m_corner_data stale_square)"
    by (rule conjunct1)
  from t have f: "\<And>j. j \<noteq> 1 \<and> j \<noteq> prev_idx (m_n stale_square) 1
      \<Longrightarrow> corner_at ?V j = corner_at stale_square j"
    by blast
  have c2: "corner_at ?V 2 = Some stale_corner" and c4: "corner_at ?V 4 = Some stale_corner"
    using f [of 2, unfolded pv] f [of 4, unfolded pv] c by simp_all
  from l len have l5: "length (m_corner_data ?V) = 5" by simp
  from update_i_stale_square len l5 c(2) c2 c4 c(1) c1
  have first: "\<exists>S'. update_i seg_ext stale_square 1 = Some S' \<and>
      length (m_corner_data stale_square) = 5 \<and> length (m_corner_data S') = 5 \<and>
      corner_at stale_square 2 = Some stale_corner \<and> corner_at S' 2 = Some stale_corner \<and>
      corner_at S' 4 = Some stale_corner \<and>
      corner_at stale_square 1 = Some stale_corner \<and> corner_at S' 1 \<noteq> Some stale_corner"
    by (intro exI conjI)
  from u n update_stale_square
  have second: "\<exists>S'. update seg_ext stale_square = Some S' \<and> m_n stale_square = 4 \<and>
      length (m_corner_data S') = 4"
    by simp
  from first second show ?thesis by (rule conjI)
qed

section \<open>Which curves \<^verbatim>\<open>setupLoop\<close> reverses\<close>

text \<open>
  Claim C4. Take a run of \<open>setupLoop\<close> that returns, and an index \<open>i > 0\<close> below \<open>n_\<close>.
  When the second loop reaches \<open>i\<close>, let \<open>c\<close> be the curve of ribbon \<open>i\<close> and \<open>cp\<close> the
  curve of ribbon \<open>prev i\<close> as they are at that moment. Then \<^verbatim>\<open>reverse()\<close> is called on
  curve \<open>i\<close> in this round exactly when the distance from the start of \<open>c\<close> to the end of
  \<open>cp\<close> is strictly greater than the distance from the end of \<open>c\<close> to the end of \<open>cp\<close>;
  with equal distances it is not called. After the round, the curve of ribbon \<open>i\<close> is
  the reversed and normalized \<open>c\<close> if it was called, and \<open>c\<close> otherwise. The surface and
  the reversals that \<open>setupLoop\<close> returns are those that the remaining rounds
  \<open>i + 1, \<dots>, n_ - 1\<close> produce from the state after round \<open>i\<close>.
\<close>

theorem setupLoop_reversal:
  assumes run: "setupLoop X S = Some (S', revs)" and i0: "0 < i" and i: "i < m_n S"
  shows "\<exists>T log T' log' c cp.
           setupLoop_upto X S i = Some (T, log) \<and>
           setupLoop_upto X S (Suc i) = Some (T', log') \<and>
           for_each (setupLoop_step X) [Suc i..<m_n S] (T', log') = Some (S', revs) \<and>
           curve_at T i = Some c \<and> curve_at T (prev_idx (m_n S) i) = Some cp \<and>
           (i \<in> set revs \<longleftrightarrow>
              norm3 (vsub (c_eval X c 0) (c_eval X cp 1)) > norm3 (vsub (c_eval X c 1) (c_eval X cp 1))) \<and>
           (norm3 (vsub (c_eval X c 0) (c_eval X cp 1)) = norm3 (vsub (c_eval X c 1) (c_eval X cp 1))
              \<longrightarrow> i \<notin> set revs) \<and>
           curve_at T' i = Some (if i \<in> set revs then c_normalize X (c_reverse X c) else c)"
proof -
  from run obtain S1 where 1: "normalize_all X S = Some S1"
    and 2: "for_each (setupLoop_step X) [0..<m_n S] (S1, []) = Some (S', revs)"
    by (auto simp: setupLoop_def split: Option.bind_splits)
  have split: "[0..<m_n S] = [0..<i] @ i # [Suc i..<m_n S]"
    using i by (rule upt_split)
  from 2 obtain T log where 3: "for_each (setupLoop_step X) [0..<i] (S1, []) = Some (T, log)"
    and 4: "for_each (setupLoop_step X) (i # [Suc i..<m_n S]) (T, log) = Some (S', revs)"
    unfolding split for_each_append by (auto split: option.splits)
  from 4 obtain T' log' where 5: "setupLoop_step X (T, log) i = Some (T', log')"
    and 6: "for_each (setupLoop_step X) [Suc i..<m_n S] (T', log') = Some (S', revs)"
    by (auto split: option.splits)
  have n1: "m_n S1 = m_n S"
    using normalize_all_frame [OF 1 [unfolded normalize_all_def]] by simp
  have nT: "m_n T = m_n S"
    using setupLoop_steps_frame [OF 3] n1 by simp
  have before: "i \<notin> set log"
    using setupLoop_steps_frame [OF 3] by auto
  have after: "i \<in> set revs \<longleftrightarrow> i \<in> set log'"
    using setupLoop_steps_frame [OF 6] by auto
  from setupLoop_step_Some [OF 5] i0 obtain r rp rn c cp where
    c: "curve_at T i = Some c" "curve_at T (prev_idx (m_n S) i) = Some cp"
    and r: "ribbon_at T i = Some r"
    and e: "if reverse_later X c cp
            then reverse_curve X (T\<lparr>m_ribbons := (m_ribbons T)[i := Some (setNeighbors r rp rn)]\<rparr>) i
                   = Some T' \<and> log' = log @ [i]
            else T' = T\<lparr>m_ribbons := (m_ribbons T)[i := Some (setNeighbors r rp rn)]\<rparr> \<and>
                 log' = log"
    unfolding nT by auto
  let ?T1 = "T\<lparr>m_ribbons := (m_ribbons T)[i := Some (setNeighbors r rp rn)]\<rparr>"
  have same: "curve_at ?T1 i = curve_at T i"
    by (rule curve_at_cong) (simp_all add: setNeighbors_curves [OF r])
  have dec: "i \<in> set revs \<longleftrightarrow> reverse_later X c cp"
    using e before after by (auto split: if_splits)
  have final: "curve_at T' i = Some (if i \<in> set revs then c_normalize X (c_reverse X c) else c)"
  proof (cases "reverse_later X c cp")
    case True
    with e have "reverse_curve X ?T1 i = Some T'" by simp
    from reverse_curve_curve_at [OF this] same c(1) True dec show ?thesis by simp
  next
    case False
    with e have "T' = ?T1" by simp
    with same c(1) False dec show ?thesis by simp
  qed
  have u1: "setupLoop_upto X S i = Some (T, log)"
    using 1 3 by (simp add: setupLoop_upto_def)
  have u2: "setupLoop_upto X S (Suc i) = Some (T', log')"
    using 1 3 5 by (simp add: setupLoop_upto_def for_each_append)
  have tie: "norm3 (vsub (c_eval X c 0) (c_eval X cp 1)) = norm3 (vsub (c_eval X c 1) (c_eval X cp 1))
              \<longrightarrow> i \<notin> set revs"
    using dec by (simp add: reverse_later_def Let_def)
  have iff: "i \<in> set revs \<longleftrightarrow>
      norm3 (vsub (c_eval X c 0) (c_eval X cp 1)) > norm3 (vsub (c_eval X c 1) (c_eval X cp 1))"
    using dec by (simp add: reverse_later_def Let_def)
  from u1 u2 6 c iff tie final show ?thesis by blast
qed

theorem setupLoop_reversal_witness:
  "\<exists>S'. setupLoop seg_ext (seg_surface flipped_square 4) = Some (S', [1]) \<and>
     (0::nat) < 1 \<and> 1 < m_n (seg_surface flipped_square 4) \<and>
     (\<exists>T log T' log' c cp.
        setupLoop_upto seg_ext (seg_surface flipped_square 4) 1 = Some (T, log) \<and>
        setupLoop_upto seg_ext (seg_surface flipped_square 4) (Suc 1) = Some (T', log') \<and>
        for_each (setupLoop_step seg_ext) [Suc 1..<m_n (seg_surface flipped_square 4)] (T', log')
          = Some (S', [1]) \<and>
        curve_at T 1 = Some c \<and>
        curve_at T (prev_idx (m_n (seg_surface flipped_square 4)) 1) = Some cp \<and>
        norm3 (vsub (c_eval seg_ext c 0) (c_eval seg_ext cp 1))
          > norm3 (vsub (c_eval seg_ext c 1) (c_eval seg_ext cp 1)) \<and>
        curve_at T' 1 = Some (c_normalize seg_ext (c_reverse seg_ext c))) \<and>
     (\<exists>T log c cp.
        setupLoop_upto seg_ext (seg_surface flipped_square 4) 2 = Some (T, log) \<and>
        curve_at T 2 = Some c \<and>
        curve_at T (prev_idx (m_n (seg_surface flipped_square 4)) 2) = Some cp \<and>
        \<not> norm3 (vsub (c_eval seg_ext c 0) (c_eval seg_ext cp 1))
            > norm3 (vsub (c_eval seg_ext c 1) (c_eval seg_ext cp 1)))"
proof -
  let ?F = "seg_surface flipped_square 4"
  from setupLoop_flipped_square obtain S' where run: "setupLoop seg_ext ?F = Some (S', [1])"
    by blast
  have n: "m_n ?F = 4"
    by (simp add: seg_surface_def setCurves_def)
  have i1: "(0::nat) < 1" "1 < m_n ?F" and i2: "(0::nat) < 2" "2 < m_n ?F"
    by (simp_all add: n)
  from setupLoop_reversal [OF run i1] obtain T log T' log' c cp where
    a: "setupLoop_upto seg_ext ?F 1 = Some (T, log)"
      "setupLoop_upto seg_ext ?F (Suc 1) = Some (T', log')"
      "for_each (setupLoop_step seg_ext) [Suc 1..<m_n ?F] (T', log') = Some (S', [1])"
      "curve_at T 1 = Some c"
      "curve_at T (prev_idx (m_n ?F) 1) = Some cp"
    and b: "1 \<in> set [1::nat] \<longleftrightarrow>
      norm3 (vsub (c_eval seg_ext c 0) (c_eval seg_ext cp 1))
        > norm3 (vsub (c_eval seg_ext c 1) (c_eval seg_ext cp 1))"
    and c: "curve_at T' 1 =
      Some (if 1 \<in> set [1::nat] then c_normalize seg_ext (c_reverse seg_ext c) else c)"
    by blast
  from b have b': "norm3 (vsub (c_eval seg_ext c 0) (c_eval seg_ext cp 1))
        > norm3 (vsub (c_eval seg_ext c 1) (c_eval seg_ext cp 1))"
    by simp
  from c have c': "curve_at T' 1 = Some (c_normalize seg_ext (c_reverse seg_ext c))"
    by simp
  from setupLoop_reversal [OF run i2] obtain U log2 d dp where
    e: "setupLoop_upto seg_ext ?F 2 = Some (U, log2)" "curve_at U 2 = Some d"
      "curve_at U (prev_idx (m_n ?F) 2) = Some dp"
    and f: "2 \<in> set [1::nat] \<longleftrightarrow>
      norm3 (vsub (c_eval seg_ext d 0) (c_eval seg_ext dp 1))
        > norm3 (vsub (c_eval seg_ext d 1) (c_eval seg_ext dp 1))"
    by blast
  from f have f': "\<not> norm3 (vsub (c_eval seg_ext d 0) (c_eval seg_ext dp 1))
        > norm3 (vsub (c_eval seg_ext d 1) (c_eval seg_ext dp 1))"
    by simp
  from run i1 a b' c' e f' show ?thesis
    by blast
qed

section \<open>\<^verbatim>\<open>setupLoop\<close> on an oriented closed loop\<close>

text \<open>
  Claim C5. Suppose the first loop of \<open>setupLoop\<close> (the normalization of every curve)
  returns, and the normalized curves form a closed loop: for every \<open>i < n_\<close> the point of
  curve \<open>i\<close> at 1 is the point of curve \<open>next i\<close> at 0. Then \<open>setupLoop\<close> returns and
  calls \<^verbatim>\<open>reverse()\<close> on no curve. If moreover normalizing a normalized curve changes
  nothing, a second run of \<open>setupLoop\<close> on the resulting state returns and again reverses
  no curve. This holds for every number of sides, in particular for three and more.
\<close>

theorem setupLoop_closed_loop:
  assumes norm: "normalize_all X S = Some S1" and cl: "closed_loop X S1"
  shows "\<exists>S'. setupLoop X S = Some (S', []) \<and>
           ((\<forall>c. c_normalize X (c_normalize X c) = c_normalize X c) \<longrightarrow>
              (\<exists>S''. setupLoop X S' = Some (S'', [])))"
proof -
  have n1: "m_n S1 = m_n S"
    using normalize_all_frame [OF norm [unfolded normalize_all_def]] by simp
  from closed_loop_rounds [OF cl, of "[0..<m_n S1]" "[]"] obtain S' where
    run: "for_each (setupLoop_step X) [0..<m_n S1] (S1, []) = Some (S', [])"
    and n': "m_n S' = m_n S1" and cu: "curves S' = curves S1"
    and rb: "map (map_option r_curve) (m_ribbons S') = map (map_option r_curve) (m_ribbons S1)"
    by auto
  have first: "setupLoop X S = Some (S', [])"
    using norm run n1 by (simp add: setupLoop_def)
  have cl': "closed_loop X S'"
    using cl n' cu rb by (rule closed_loop_cong)
  have again: "\<exists>S''. setupLoop X S' = Some (S'', [])"
    if idem: "\<forall>c. c_normalize X (c_normalize X c) = c_normalize X c"
  proof -
    have "\<And>i. i \<in> set [0..<m_n S] \<Longrightarrow> normalized_at X S1 i"
      using normalize_loop_normalized [OF _ norm [unfolded normalize_all_def], of "{}"] idem
      by auto
    then have "\<And>i. i \<in> set [0..<m_n S'] \<Longrightarrow> normalized_at X S' i"
      using normalized_at_cong [OF _ cu rb] n' n1 by simp
    then have norm': "normalize_all X S' = Some S'"
      unfolding normalize_all_def by (rule normalize_loop_fixed)
    from closed_loop_rounds [OF cl', of "[0..<m_n S']" "[]"] obtain S'' where
      "for_each (setupLoop_step X) [0..<m_n S'] (S', []) = Some (S'', [])"
      by auto
    with norm' have "setupLoop X S' = Some (S'', [])"
      by (simp add: setupLoop_def)
    then show ?thesis by blast
  qed
  from first again show ?thesis by blast
qed

theorem setupLoop_closed_loop_witness:
  "normalize_all seg_ext (seg_surface unit_square 4) = Some (seg_surface unit_square 4) \<and>
   closed_loop seg_ext (seg_surface unit_square 4) \<and>
   (\<forall>c. c_normalize seg_ext (c_normalize seg_ext c) = c_normalize seg_ext c) \<and>
   (\<exists>S'. setupLoop seg_ext (seg_surface unit_square 4) = Some (S', []) \<and>
      (\<exists>S''. setupLoop seg_ext S' = Some (S'', [])))"
proof -
  have idem: "\<forall>c. c_normalize seg_ext (c_normalize seg_ext c) = c_normalize seg_ext c"
    by (simp add: seg_ext_def)
  from setupLoop_closed_loop [OF normalize_all_unit_square closed_loop_unit_square] idem
  have "\<exists>S'. setupLoop seg_ext (seg_surface unit_square 4) = Some (S', []) \<and>
      (\<exists>S''. setupLoop seg_ext S' = Some (S'', []))"
    by blast
  with normalize_all_unit_square closed_loop_unit_square idem show ?thesis
    by blast
qed

section \<open>The size invariant\<close>

text \<open>
  Claim C9. In every state a surface can reach, when \<open>update()\<close> returns the invariant
  \<^verbatim>\<open>ribbons_.size() == n_ == corner_data_.size()\<close> holds, and it still holds after any
  further calls of \<open>setupLoop\<close>, \<open>eval\<close> and \<open>update()\<close>. \<open>setCurves\<close> leaves
  \<^verbatim>\<open>ribbons_.size() == n_ == curves.size()\<close>. \<open>setCurve(i, curve)\<close> with \<open>i \<ge> n_\<close> (and
  \<open>i + 1\<close> in the range of \<^verbatim>\<open>size_t\<close>) returns with \<^verbatim>\<open>ribbons_.size() == i + 1\<close> and
  \<^verbatim>\<open>n_ == i + 1\<close>.
\<close>

theorem size_invariant_after_update:
  "(\<forall>S1 S2. reachable X S \<and> update X S = Some S1 \<and> later_calls X S1 S2 \<longrightarrow>
      size_invariant S1 \<and> size_invariant S2) \<and>
   (length (m_ribbons (setCurves X S cs)) = m_n (setCurves X S cs) \<and>
    m_n (setCurves X S cs) = length cs) \<and>
   (m_n S \<le> i \<and> i + 1 < size_range \<longrightarrow>
      (\<exists>S'. setCurve X S i c = Some S' \<and> length (m_ribbons S') = i + 1 \<and> m_n S' = i + 1))"
proof (intro conjI)
  show "\<forall>S1 S2. reachable X S \<and> update X S = Some S1 \<and> later_calls X S1 S2 \<longrightarrow>
      size_invariant S1 \<and> size_invariant S2"
  proof (intro allI impI)
    fix S1 S2
    assume h: "reachable X S \<and> update X S = Some S1 \<and> later_calls X S1 S2"
    then have "length (m_ribbons S) = m_n S" using reachable_ribbons by blast
    with h update_effect [of X S S1] have 1: "size_invariant S1"
      by (simp add: size_invariant_def)
    with h later_calls_sizes have "size_invariant S2" by blast
    with 1 show "size_invariant S1 \<and> size_invariant S2" by (rule conjI)
  qed
next
  show "length (m_ribbons (setCurves X S cs)) = m_n (setCurves X S cs)"
    by (simp add: setCurves_def)
next
  show "m_n (setCurves X S cs) = length cs"
    by (simp add: setCurves_def)
next
  show "m_n S \<le> i \<and> i + 1 < size_range \<longrightarrow>
      (\<exists>S'. setCurve X S i c = Some S' \<and> length (m_ribbons S') = i + 1 \<and> m_n S' = i + 1)"
    using setCurve_grows by blast
qed

theorem size_invariant_after_update_witness:
  "reachable seg_ext (seg_surface unit_square 4) \<and>
   (\<exists>S1 S2. update seg_ext (seg_surface unit_square 4) = Some S1 \<and>
      later_calls seg_ext S1 S2 \<and> (\<exists>revs. setupLoop seg_ext S1 = Some (S2, revs)) \<and>
      size_invariant S1 \<and> size_invariant S2) \<and>
   length (m_ribbons (seg_surface unit_square 4)) = 4 \<and>
   m_n (seg_surface unit_square 4) = 4 \<and>
   m_n (seg_surface unit_square 4) \<le> 6 \<and> 6 + 1 < size_range \<and>
   (\<exists>S'. setCurve seg_ext (seg_surface unit_square 4) 6 (Some 9) = Some S' \<and>
      length (m_ribbons S') = 7 \<and> m_n S' = 7)"
proof -
  let ?S = "seg_surface unit_square 4"
  let ?U = "?S\<lparr>m_corner_data := unit_square_corners\<rparr>"
  note t = size_invariant_after_update [of seg_ext ?S "map Some [0..<4]" 6 "Some 9"]
  from setupLoop_updated_square obtain S2 where run: "setupLoop seg_ext ?U = Some (S2, [])"
    by blast
  have "later_calls seg_ext ?U ?U"
    by (rule l_update [OF l_none update_updated_square])
  then have "later_calls seg_ext ?U S2"
    using run by (rule l_setupLoop)
  then have lc: "later_calls seg_ext ?U S2"
    by (rule l_eval [where resolution = 3]) (rule refl)
  from t have "reachable seg_ext ?S \<and> update seg_ext ?S = Some ?U \<and> later_calls seg_ext ?U S2
      \<longrightarrow> size_invariant ?U \<and> size_invariant S2"
    by blast
  with reachable_unit_square update_unit_square lc
  have inv: "size_invariant ?U \<and> size_invariant S2" by blast
  with update_unit_square lc run
  have first: "\<exists>S1 S2. update seg_ext ?S = Some S1 \<and>
      later_calls seg_ext S1 S2 \<and> (\<exists>revs. setupLoop seg_ext S1 = Some (S2, revs)) \<and>
      size_invariant S1 \<and> size_invariant S2"
    by blast
  have sc: "setCurves seg_ext (Surface () () unit_square) (map Some [0..<4]) = ?S"
    by (simp add: seg_surface_def)
  have n: "m_n ?S = 4"
    by (simp add: seg_surface_def setCurves_def)
  have len: "length (m_ribbons ?S) = 4"
    by (simp add: seg_surface_def setCurves_def)
  from n have le: "m_n ?S \<le> 6" by simp
  have fits: "6 + 1 < size_range" by (simp add: size_range_def)
  from t le fits have "\<exists>S'. setCurve seg_ext ?S 6 (Some 9) = Some S' \<and>
      length (m_ribbons S') = 6 + 1 \<and> m_n S' = 6 + 1"
    by blast
  then have grow: "\<exists>S'. setCurve seg_ext ?S 6 (Some 9) = Some S' \<and>
      length (m_ribbons S') = 7 \<and> m_n S' = 7"
    by simp
  from reachable_unit_square first len n le fits grow show ?thesis
    by blast
qed

end
